theory Spec2Isabelle
  imports Main "HOL-Library.AList"
begin

section \<open>Values, keys and operation types\<close>

text \<open>
  Objects and effects are identified by their address. A JavaScript value is a primitive,
  a reference to an object, or a function of the library, known by its name. Numbers are
  integers plus the one value \<open>NaN\<close>, which is all the code under study distinguishes
  (through \<open>hasChanged\<close>).
\<close>

type_synonym oid = nat
type_synonym eid = nat

datatype val =
  VUndefined | VNull | VBool bool | VNum int | VNaN | VStr string | VObj oid | VFn string

text \<open>
  A key of the dependency graph: a property name, a symbol, \<open>undefined\<close>, or another
  value used as the key of a container. A property name that is the decimal form of a
  natural number (\<open>"0"\<close>, \<open>"1"\<close>, ...) is \<open>KIdx\<close> of that number, and every other
  name is \<open>KStr\<close>. The symbols are \<open>ITERATE_KEY\<close>, which the library creates itself,
  the well-known symbols that are properties of \<open>Symbol\<close> (\<open>Symbol.iterator\<close> and
  the like), and the symbols of user code.
\<close>

datatype key =
  KUndefined | KStr string | KIdx nat | ITERATE_KEY | KBuiltIn string | KSym nat
  | KNum int | KObj oid

text \<open>
  The two enumerations of \<open>operations.ts\<close>, with the members the sources use.
\<close>

datatype TrackOpTypes = GET | HAS | ITERATE

datatype TriggerOpTypes = SET | ADD | DELETE | CLEAR

text \<open>
  The result of \<open>toRawType\<close>, the class name of an object, and the value of its
  property \<open>constructor\<close>: one of the built-in constructors or a class of user code.
  The two are independent: an instance of a class that extends \<open>Map\<close> has the class
  name \<open>Map\<close> and another constructor.
\<close>

datatype rawType = TObject | TArray | TMap | TSet | TWeakMap | TWeakSet | TOther

datatype ctor = CObject | CArray | CMap | CSet | CWeakMap | CWeakSet | CUser nat

datatype handlers =
  mutableHandlers | readonlyHandlers | shallowReadonlyHandlers
  | mutableCollectionHandlers | readonlyCollectionHandlers

section \<open>The state of the reactivity module\<close>

record ReactiveEffectOptions =
  lazy :: bool
  computed :: bool
  scheduler :: "nat option"
  onTrack :: "nat option"
  onTrigger :: "nat option"
  onStop :: "nat option"

text \<open>
  A \<open>Dep\<close> is a \<open>Set\<close> of effects. It is created once for a target and a key, in
  \<open>track\<close>, and never replaced, so the pair of target and key names it. A JavaScript
  \<open>Set\<close> iterates in insertion order: it is a list without duplicates.
\<close>

type_synonym Dep = "eid list"
type_synonym KeyToDepMap = "(key \<times> Dep) list"

record ReactiveEffect =
  active :: bool
  raw :: nat
  deps :: "(oid \<times> key) list"
  options :: ReactiveEffectOptions

record DebuggerEventExtraInfo =
  newValue :: "val option"
  oldValue :: "val option"

datatype DebuggerEvent =
  TrackEvent nat eid oid TrackOpTypes key
  | TriggerEvent nat eid oid TriggerOpTypes key "DebuggerEventExtraInfo option"

datatype console_entry =
  LogTarget oid
  | WarnSetReadonly key oid
  | WarnDeleteReadonly key oid
  | WarnNotReactive val

text \<open>
  What the library probes on an object: its class, its constructor and the properties
  \<open>_isVue\<close>, \<open>_isVNode\<close> and \<open>_isRef\<close>. They are attributes fixed when the object
  is created and read without interception; a proxy has the attributes of its target.
\<close>

record attrs =
  toRawType :: rawType
  constructor :: ctor
  isVue :: bool
  isVNode :: bool
  isRefFlag :: bool

text \<open>
  The whole mutable state: the module variables of \<open>effect.ts\<close> (\<open>targetMap\<close>,
  \<open>effectStack\<close>, \<open>activeEffect\<close>, \<open>shouldTrack\<close>), those of \<open>reactive.ts\<close> (four
  weak maps and two weak sets), the flag \<open>LOCKED\<close> of \<open>lock.ts\<close>, the build flag
  \<open>__DEV__\<close>, and the heap: the effects, the attributes and the own data properties of
  the objects, the storage slot of each reference cell, the proxies, and the next free
  addresses. \<open>console\<close> collects what is printed, \<open>debugLog\<close> the events handed to the
  hooks \<open>onTrack\<close> and \<open>onTrigger\<close>, and \<open>userLog\<close> is an array owned by user code.
\<close>

record state =
  targetMap :: "oid \<Rightarrow> KeyToDepMap option"
  effectStack :: "eid list"
  activeEffect :: "eid option"
  shouldTrack :: bool
  effects :: "eid \<Rightarrow> ReactiveEffect"
  nextEffect :: eid
  rawToReactive :: "oid \<Rightarrow> oid option"
  reactiveToRaw :: "oid \<Rightarrow> oid option"
  rawToReadonly :: "oid \<Rightarrow> oid option"
  readonlyToRaw :: "oid \<Rightarrow> oid option"
  readonlyValues :: "oid set"
  nonReactiveValues :: "oid set"
  LOCKED :: bool
  DEV :: bool
  attrsOf :: "oid \<Rightarrow> attrs"
  props :: "oid \<Rightarrow> key \<Rightarrow> val option"
  cell :: "oid \<Rightarrow> val"
  proxies :: "oid \<Rightarrow> (oid \<times> handlers) option"
  nextObject :: oid
  console :: "console_entry list"
  debugLog :: "DebuggerEvent list"
  userLog :: "val list"

text \<open>
  A call that runs user code ends normally with a value, throws, or does not end within
  the fuel it was given.
\<close>

datatype 'a outcome = Done 'a state | Threw state | Diverge

text \<open>
  User functions are not part of the state. An effect holds the index of its function in
  a table; so do the options \<open>scheduler\<close> and \<open>onStop\<close>. Each function receives the
  means of calling an effect, so that it can read, write and call effects itself; an
  \<open>onStop\<close> hook receives the means of stopping an effect as well. \<open>toNumberFn\<close> is
  the conversion of a string or an object to a number by the language, which for an
  object calls user code.
\<close>

type_synonym invoker = "eid \<Rightarrow> state \<Rightarrow> val outcome"

record env =
  rawFn :: "nat \<Rightarrow> invoker \<Rightarrow> state \<Rightarrow> val outcome"
  schedulerFn :: "nat \<Rightarrow> invoker \<Rightarrow> eid \<Rightarrow> state \<Rightarrow> val outcome"
  onStopFn :: "nat \<Rightarrow> invoker \<Rightarrow> invoker \<Rightarrow> state \<Rightarrow> val outcome"
  toNumberFn :: "val \<Rightarrow> state \<Rightarrow> val outcome"

section \<open>effect.ts\<close>

text \<open>
  Effects are called without arguments, as \<open>scheduleRun\<close> and \<open>effect\<close> call them.
  The hooks \<open>onTrack\<close> and \<open>onTrigger\<close> of a development build are represented by
  the event they are called with. \<open>Set.add\<close> appends an element that is not yet in the
  set.
\<close>

definition setAdd :: "'a \<Rightarrow> 'a list \<Rightarrow> 'a list" where
  "setAdd x xs = (if x \<in> set xs then xs else xs @ [x])"

text \<open>
  \<open>depOf\<close> is \<open>targetMap.get(target).get(key)\<close>, empty when either lookup finds
  nothing. \<open>depDelete e d\<close> is \<open>dep.delete(effect)\<close> for the dep-set named by the
  pair \<open>d\<close>, an element of \<open>effect.deps\<close>.
\<close>

definition depOf :: "state \<Rightarrow> oid \<Rightarrow> key \<Rightarrow> Dep" where
  "depOf s target k =
     (case targetMap s target of
        None \<Rightarrow> []
      | Some depsMap \<Rightarrow> (case map_of depsMap k of None \<Rightarrow> [] | Some dep \<Rightarrow> dep))"

definition depDelete ::
  "eid \<Rightarrow> oid \<times> key \<Rightarrow> (oid \<Rightarrow> KeyToDepMap option) \<Rightarrow> (oid \<Rightarrow> KeyToDepMap option)" where
  "depDelete e d tm =
     (case tm (fst d) of
        None \<Rightarrow> tm
      | Some depsMap \<Rightarrow>
          tm(fst d \<mapsto> map (\<lambda>(k, dep). if k = snd d then (k, removeAll e dep) else (k, dep)) depsMap))"

definition cleanup :: "eid \<Rightarrow> state \<Rightarrow> state" where
  "cleanup e s =
     (let ds = deps (effects s e)
      in if ds \<noteq> []
         then s\<lparr>targetMap := fold (depDelete e) ds (targetMap s),
                effects := (effects s)(e := (effects s e)\<lparr>deps := []\<rparr>)\<rparr>
         else s)"



definition track :: "oid \<Rightarrow> TrackOpTypes \<Rightarrow> key \<Rightarrow> state \<Rightarrow> state" where
  "track target type k s =
     (case activeEffect s of
        None \<Rightarrow> s
      | Some e \<Rightarrow>
          if \<not> shouldTrack s then s
          else
            let depsMap = (case targetMap s target of None \<Rightarrow> [] | Some m \<Rightarrow> m);
                dep = (case map_of depsMap k of None \<Rightarrow> [] | Some d \<Rightarrow> d)
            in if e \<in> set dep
               then s\<lparr>targetMap := (targetMap s)(target \<mapsto> AList.update k dep depsMap)\<rparr>
               else
                 s\<lparr>targetMap := (targetMap s)(target \<mapsto> AList.update k (dep @ [e]) depsMap),
                   effects := (effects s)
                     (e := (effects s e)\<lparr>deps := deps (effects s e) @ [(target, k)]\<rparr>),
                   debugLog :=
                     (case onTrack (options (effects s e)) of
                        None \<Rightarrow> debugLog s
                      | Some h \<Rightarrow>
                          if DEV s then debugLog s @ [TrackEvent h e target type k]
                          else debugLog s)\<rparr>)"

text \<open>
  \<open>popEffect\<close> is the \<open>finally\<close> block of \<open>run\<close>: it is executed when the function
  returns and when it throws.
\<close>

definition popEffect :: "state \<Rightarrow> state" where
  "popEffect s =
     (let st = butlast (effectStack s)
      in s\<lparr>effectStack := st, activeEffect := (if st = [] then None else Some (last st))\<rparr>)"

definition run :: "eid \<Rightarrow> (state \<Rightarrow> val outcome) \<Rightarrow> state \<Rightarrow> val outcome" where
  "run e fn s =
     (if \<not> active (effects s e) then fn s
      else if e \<notin> set (effectStack s) then
        (let s1 = cleanup e s;
             s2 = s1\<lparr>effectStack := effectStack s1 @ [e], activeEffect := Some e\<rparr>
         in case fn s2 of
              Done v s3 \<Rightarrow> Done v (popEffect s3)
            | Threw s3 \<Rightarrow> Threw (popEffect s3)
            | Diverge \<Rightarrow> Diverge)
      else Done VUndefined s)"

text \<open>
  \<open>stop\<close> takes, besides the means of calling an effect, the function \<open>stop\<close> as the
  hook \<open>onStop\<close> can call it. \<open>stopEffect\<close> is \<open>stop\<close> as user code calls it, with
  fuel that bounds the depth of the calls of \<open>stop\<close> inside hooks.
\<close>

definition stop :: "env \<Rightarrow> invoker \<Rightarrow> invoker \<Rightarrow> eid \<Rightarrow> state \<Rightarrow> val outcome" where
  "stop en call stopper e s =
     (if active (effects s e) then
        (let s1 = cleanup e s
         in case (case onStop (options (effects s1 e)) of
                    None \<Rightarrow> Done VUndefined s1
                  | Some h \<Rightarrow> onStopFn en h call stopper s1) of
              Done v s2 \<Rightarrow>
                Done VUndefined (s2\<lparr>effects := (effects s2)(e := (effects s2 e)\<lparr>active := False\<rparr>)\<rparr>)
            | Threw s2 \<Rightarrow> Threw s2
            | Diverge \<Rightarrow> Diverge)
      else Done VUndefined s)"

fun stopEffect :: "env \<Rightarrow> nat \<Rightarrow> invoker \<Rightarrow> eid \<Rightarrow> state \<Rightarrow> val outcome" where
  "stopEffect en 0 call e s = Diverge"
| "stopEffect en (Suc n) call e s = stop en call (stopEffect en n call) e s"

definition addRunners ::
  "state \<Rightarrow> eid list \<times> eid list \<Rightarrow> Dep option \<Rightarrow> eid list \<times> eid list" where
  "addRunners s acc effectsToAdd =
     (case effectsToAdd of
        None \<Rightarrow> acc
      | Some dep \<Rightarrow>
          fold (\<lambda>e (es, cs).
                  if computed (options (effects s e)) then (es, setAdd e cs)
                  else (setAdd e es, cs))
               dep acc)"

definition isArray :: "state \<Rightarrow> oid \<Rightarrow> bool" where
  "isArray s target = (toRawType (attrsOf s target) = TArray)"

definition iterationKey :: "state \<Rightarrow> oid \<Rightarrow> key" where
  "iterationKey s target = (if isArray s target then KStr ''length'' else ITERATE_KEY)"

text \<open>
  The two work sets \<open>effects\<close> and \<open>computedRunners\<close> that \<open>trigger\<close> fills before it
  runs anything, as the pair (effects, computedRunners).
\<close>

definition runners ::
  "state \<Rightarrow> KeyToDepMap \<Rightarrow> oid \<Rightarrow> TriggerOpTypes \<Rightarrow> key \<Rightarrow> eid list \<times> eid list" where
  "runners s depsMap target type k =
     (if type = CLEAR then fold (\<lambda>(k', dep) acc. addRunners s acc (Some dep)) depsMap ([], [])
      else
        let acc1 = (if k \<noteq> KUndefined then addRunners s ([], []) (map_of depsMap k) else ([], []))
        in if type = ADD \<or> type = DELETE
           then addRunners s acc1 (map_of depsMap (iterationKey s target))
           else acc1)"

definition scheduleRun ::
  "env \<Rightarrow> invoker \<Rightarrow> oid \<Rightarrow> TriggerOpTypes \<Rightarrow> key \<Rightarrow> DebuggerEventExtraInfo option
     \<Rightarrow> eid \<Rightarrow> state \<Rightarrow> val outcome" where
  "scheduleRun en call target type k extraInfo e s =
     (let s1 = (case onTrigger (options (effects s e)) of
                  None \<Rightarrow> s
                | Some h \<Rightarrow>
                    if DEV s
                    then s\<lparr>debugLog := debugLog s @ [TriggerEvent h e target type k extraInfo]\<rparr>
                    else s)
      in case scheduler (options (effects s1 e)) of
           Some sc \<Rightarrow> schedulerFn en sc call e s1
         | None \<Rightarrow> call e s1)"

fun forEach :: "(eid \<Rightarrow> state \<Rightarrow> val outcome) \<Rightarrow> eid list \<Rightarrow> state \<Rightarrow> val outcome" where
  "forEach f [] s = Done VUndefined s"
| "forEach f (e # es) s =
     (case f e s of
        Done v s' \<Rightarrow> forEach f es s'
      | Threw s' \<Rightarrow> Threw s'
      | Diverge \<Rightarrow> Diverge)"

definition trigger ::
  "env \<Rightarrow> invoker \<Rightarrow> oid \<Rightarrow> TriggerOpTypes \<Rightarrow> key \<Rightarrow> DebuggerEventExtraInfo option
     \<Rightarrow> state \<Rightarrow> val outcome" where
  "trigger en call target type k extraInfo s =
     (case targetMap s target of
        None \<Rightarrow> Done VUndefined s
      | Some depsMap \<Rightarrow>
          let rs = runners s depsMap target type k;
              s1 = (if type = ADD \<or> type = DELETE
                    then s\<lparr>console := console s @ [LogTarget target]\<rparr> else s)
          in forEach (scheduleRun en call target type k extraInfo) (snd rs @ fst rs) s1)"

text \<open>
  Calling an effect is \<open>run(effect, fn, args)\<close> with the function the effect was created
  from. The fuel bounds the depth of calls of effects inside effects.
\<close>

fun invoke :: "env \<Rightarrow> nat \<Rightarrow> eid \<Rightarrow> state \<Rightarrow> val outcome" where
  "invoke en 0 e s = Diverge"
| "invoke en (Suc n) e s = run e (rawFn en (raw (effects s e)) (invoke en n)) s"

datatype fnArg = PlainFn nat | EffectFn eid

definition createReactiveEffect :: "nat \<Rightarrow> ReactiveEffectOptions \<Rightarrow> state \<Rightarrow> eid \<times> state" where
  "createReactiveEffect fn opts s =
     (let e = nextEffect s
      in (e, s\<lparr>effects := (effects s)
                  (e := \<lparr>active = True, raw = fn, deps = [], options = opts\<rparr>),
               nextEffect := Suc e\<rparr>))"

definition effect ::
  "env \<Rightarrow> nat \<Rightarrow> fnArg \<Rightarrow> ReactiveEffectOptions \<Rightarrow> state \<Rightarrow> eid outcome" where
  "effect en fuel fn opts s =
     (let f = (case fn of PlainFn i \<Rightarrow> i | EffectFn e0 \<Rightarrow> raw (effects s e0));
          (e, s1) = createReactiveEffect f opts s
      in if \<not> lazy opts
         then (case invoke en fuel e s1 of
                 Done v s2 \<Rightarrow> Done e s2
               | Threw s2 \<Rightarrow> Threw s2
               | Diverge \<Rightarrow> Diverge)
         else Done e s1)"

definition EMPTY_OBJ :: ReactiveEffectOptions where
  "EMPTY_OBJ = \<lparr>lazy = False, computed = False, scheduler = None, onTrack = None,
                 onTrigger = None, onStop = None\<rparr>"

text \<open>
  The order in which one call of \<open>trigger\<close> hands the effects to \<open>scheduleRun\<close>:
  \<open>computedRunners.forEach(run)\<close>, then \<open>effects.forEach(run)\<close>.
\<close>

definition triggerOrder :: "state \<Rightarrow> oid \<Rightarrow> TriggerOpTypes \<Rightarrow> key \<Rightarrow> eid list" where
  "triggerOrder s target type k =
     (case targetMap s target of
        None \<Rightarrow> []
      | Some depsMap \<Rightarrow> (let rs = runners s depsMap target type k in snd rs @ fst rs))"

definition isComputed :: "state \<Rightarrow> eid \<Rightarrow> bool" where
  "isComputed s e = computed (options (effects s e))"

definition members :: "Dep option \<Rightarrow> eid set" where
  "members d = (case d of None \<Rightarrow> {} | Some dep \<Rightarrow> set dep)"

section \<open>Symmetric membership\<close>



section \<open>reactive.ts\<close>

text \<open>
  Modelled from the spec: \<open>isObject\<close> of the shared utilities, which are not among the
  sources. Only a heap object can be wrapped; "wrapping a non-object produces a
  diagnostic warning and returns the input unchanged".
\<close>

definition isObject :: "val \<Rightarrow> bool" where
  "isObject v = (case v of VObj x \<Rightarrow> True | _ \<Rightarrow> False)"

text \<open>\<open>makeMap('Object,Array,Map,Set,WeakMap,WeakSet')\<close>\<close>

definition isObservableType :: "rawType \<Rightarrow> bool" where
  "isObservableType ty = (ty \<noteq> TOther)"

text \<open>\<open>new Set<Function>([Set, Map, WeakMap, WeakSet])\<close>\<close>

definition collectionTypes :: "ctor set" where
  "collectionTypes = {CSet, CMap, CWeakMap, CWeakSet}"

definition canObserve :: "state \<Rightarrow> oid \<Rightarrow> bool" where
  "canObserve s x =
     (\<not> isVue (attrsOf s x) \<and> \<not> isVNode (attrsOf s x) \<and>
      isObservableType (toRawType (attrsOf s x)) \<and> x \<notin> nonReactiveValues s)"

text \<open>
  \<open>createReactiveObject\<close> receives two of the four weak maps. The flag \<open>ro\<close> selects
  the pair: \<open>rawToReadonly\<close> and \<open>readonlyToRaw\<close> when it is set, \<open>rawToReactive\<close> and
  \<open>reactiveToRaw\<close> otherwise. \<open>new Proxy\<close> takes the next free address; the attributes
  of a proxy are those of its target.
\<close>

definition toProxyMap :: "bool \<Rightarrow> state \<Rightarrow> oid \<Rightarrow> oid option" where
  "toProxyMap ro s = (if ro then rawToReadonly s else rawToReactive s)"

definition toRawMap :: "bool \<Rightarrow> state \<Rightarrow> oid \<Rightarrow> oid option" where
  "toRawMap ro s = (if ro then readonlyToRaw s else reactiveToRaw s)"

definition register :: "bool \<Rightarrow> oid \<Rightarrow> oid \<Rightarrow> state \<Rightarrow> state" where
  "register ro target observed s =
     (if ro
      then s\<lparr>rawToReadonly := (rawToReadonly s)(target \<mapsto> observed),
             readonlyToRaw := (readonlyToRaw s)(observed \<mapsto> target)\<rparr>
      else s\<lparr>rawToReactive := (rawToReactive s)(target \<mapsto> observed),
             reactiveToRaw := (reactiveToRaw s)(observed \<mapsto> target)\<rparr>)"

definition createReactiveObject ::
  "val \<Rightarrow> bool \<Rightarrow> handlers \<Rightarrow> handlers \<Rightarrow> state \<Rightarrow> val \<times> state" where
  "createReactiveObject target ro baseHandlers collectionHandlers s =
     (case target of
        VObj x \<Rightarrow>
          (case toProxyMap ro s x of
             Some observed \<Rightarrow> (VObj observed, s)
           | None \<Rightarrow>
               if toRawMap ro s x \<noteq> None then (target, s)
               else if \<not> canObserve s x then (target, s)
               else
                 let hs = (if constructor (attrsOf s x) \<in> collectionTypes
                           then collectionHandlers else baseHandlers);
                     observed = nextObject s;
                     s1 = s\<lparr>proxies := (proxies s)(observed \<mapsto> (x, hs)),
                            attrsOf := (attrsOf s)(observed := attrsOf s x),
                            nextObject := Suc observed\<rparr>
                 in (VObj observed, register ro x observed s1))
      | _ \<Rightarrow>
          (target, if DEV s then s\<lparr>console := console s @ [WarnNotReactive target]\<rparr> else s))"

definition readonly :: "val \<Rightarrow> state \<Rightarrow> val \<times> state" where
  "readonly target s =
     (let target1 =
            (case target of
               VObj x \<Rightarrow> (case reactiveToRaw s x of Some r \<Rightarrow> VObj r | None \<Rightarrow> target)
             | _ \<Rightarrow> target)
      in createReactiveObject target1 True readonlyHandlers readonlyCollectionHandlers s)"

definition reactive :: "val \<Rightarrow> state \<Rightarrow> val \<times> state" where
  "reactive target s =
     (case target of
        VObj x \<Rightarrow>
          if readonlyToRaw s x \<noteq> None then (target, s)
          else if x \<in> readonlyValues s then readonly target s
          else createReactiveObject target False mutableHandlers mutableCollectionHandlers s
      | _ \<Rightarrow> createReactiveObject target False mutableHandlers mutableCollectionHandlers s)"

definition shallowReadonly :: "val \<Rightarrow> state \<Rightarrow> val \<times> state" where
  "shallowReadonly target s =
     createReactiveObject target True shallowReadonlyHandlers readonlyCollectionHandlers s"

definition isReactive :: "state \<Rightarrow> val \<Rightarrow> bool" where
  "isReactive s v =
     (case v of VObj x \<Rightarrow> reactiveToRaw s x \<noteq> None \<or> readonlyToRaw s x \<noteq> None | _ \<Rightarrow> False)"

definition isReadonly :: "state \<Rightarrow> val \<Rightarrow> bool" where
  "isReadonly s v = (case v of VObj x \<Rightarrow> readonlyToRaw s x \<noteq> None | _ \<Rightarrow> False)"

definition toRaw :: "state \<Rightarrow> val \<Rightarrow> val" where
  "toRaw s observed =
     (case observed of
        VObj x \<Rightarrow>
          (case reactiveToRaw s x of
             Some r \<Rightarrow> VObj r
           | None \<Rightarrow> (case readonlyToRaw s x of Some r \<Rightarrow> VObj r | None \<Rightarrow> observed))
      | _ \<Rightarrow> observed)"


definition markNonReactive :: "oid \<Rightarrow> state \<Rightarrow> state" where
  "markNonReactive x s = s\<lparr>nonReactiveValues := insert x (nonReactiveValues s)\<rparr>"

text \<open>
  User code creates an object: an object literal, an array, a container, an instance of
  a class.
\<close>

definition newObject ::
  "rawType \<Rightarrow> ctor \<Rightarrow> (key \<Rightarrow> val option) \<Rightarrow> state \<Rightarrow> oid \<times> state" where
  "newObject ty c ps s =
     (let x = nextObject s
      in (x, s\<lparr>attrsOf := (attrsOf s)
                  (x := \<lparr>toRawType = ty, constructor = c, isVue = False, isVNode = False,
                         isRefFlag = False\<rparr>),
               props := (props s)(x := ps),
               nextObject := Suc x\<rparr>))"

text \<open>
  What the registry satisfies in every state the module reaches: the raw-to-view map
  and the view-to-raw map of each mode are inverse to each other, no object is a mutable
  view and a read-only view
  at once, no view is a key of \<open>rawToReactive\<close>, and nothing is recorded about an
  address that is still free.
\<close>

definition wfRegistry :: "state \<Rightarrow> bool" where
  "wfRegistry s =
     ((\<forall>x p. rawToReactive s x = Some p \<longleftrightarrow> reactiveToRaw s p = Some x) \<and>
      (\<forall>x p. rawToReadonly s x = Some p \<longleftrightarrow> readonlyToRaw s p = Some x) \<and>
      (\<forall>p. reactiveToRaw s p \<noteq> None \<longrightarrow> readonlyToRaw s p = None \<and> rawToReactive s p = None) \<and>
      (\<forall>p. readonlyToRaw s p \<noteq> None \<longrightarrow> rawToReactive s p = None) \<and>
      (\<forall>x. nextObject s \<le> x \<longrightarrow>
         rawToReactive s x = None \<and> reactiveToRaw s x = None \<and>
         rawToReadonly s x = None \<and> readonlyToRaw s x = None \<and>
         x \<notin> readonlyValues s \<and> x \<notin> nonReactiveValues s))"

text \<open>The state after \<open>new Proxy\<close> and the two \<open>set\<close> calls of \<open>createReactiveObject\<close>.\<close>

definition allocProxy :: "bool \<Rightarrow> handlers \<Rightarrow> oid \<Rightarrow> state \<Rightarrow> state" where
  "allocProxy ro hs x s =
     register ro x (nextObject s)
       (s\<lparr>proxies := (proxies s)(nextObject s \<mapsto> (x, hs)),
          attrsOf := (attrsOf s)(nextObject s := attrsOf s x),
          nextObject := Suc (nextObject s)\<rparr>)"

section \<open>ref.ts\<close>

text \<open>
  \<open>isRef(r)\<close> is \<open>r ? r._isRef === true : false\<close>: a primitive has no such property,
  and for an object it is the attribute \<open>isRefFlag\<close>.
\<close>

definition isRef :: "state \<Rightarrow> val \<Rightarrow> bool" where
  "isRef s r = (case r of VObj x \<Rightarrow> isRefFlag (attrsOf s x) | _ \<Rightarrow> False)"

definition convert :: "val \<Rightarrow> state \<Rightarrow> val \<times> state" where
  "convert v s = (if isObject v then reactive v s else (v, s))"

text \<open>
  \<open>ref(raw)\<close>: the cell is a new object with \<open>_isRef: true\<close>; the variable \<open>raw\<close> that
  its accessors close over is the slot \<open>cell\<close> of that object.
\<close>

definition ref :: "val \<Rightarrow> state \<Rightarrow> val \<times> state" where
  "ref raw0 s =
     (if isRef s raw0 then (raw0, s)
      else
        let (v, s1) = convert raw0 s;
            r = nextObject s1
        in (VObj r,
            s1\<lparr>attrsOf := (attrsOf s1)
                  (r := \<lparr>toRawType = TObject, constructor = CObject, isVue = False,
                         isVNode = False, isRefFlag = True\<rparr>),
               cell := (cell s1)(r := v),
               nextObject := Suc r\<rparr>))"

definition refGet :: "oid \<Rightarrow> state \<Rightarrow> val \<times> state" where
  "refGet r s = (let s1 = track r GET (KStr ''value'') s in (cell s1 r, s1))"

definition refSet :: "env \<Rightarrow> invoker \<Rightarrow> oid \<Rightarrow> val \<Rightarrow> state \<Rightarrow> val outcome" where
  "refSet en call r newVal s =
     (let (v, s1) = convert newVal s;
          s2 = s1\<lparr>cell := (cell s1)(r := v)\<rparr>
      in trigger en call r SET (KStr ''value'')
           (if DEV s2 then Some \<lparr>newValue = Some newVal, oldValue = None\<rparr> else None) s2)"

section \<open>baseHandlers.ts\<close>

text \<open>
  Modelled from the spec: \<open>hasChanged\<close>, \<open>hasOwn\<close> and \<open>isSymbol\<close> of the shared
  utilities, which are not among the sources. A value has changed when it "differs from
  the old value under strict inequality with NaN equal to NaN".
\<close>

definition strictEq :: "val \<Rightarrow> val \<Rightarrow> bool" where
  "strictEq a b = (a = b \<and> a \<noteq> VNaN)"

definition hasChanged :: "val \<Rightarrow> val \<Rightarrow> bool" where
  "hasChanged v old = (\<not> strictEq v old \<and> (strictEq v v \<or> strictEq old old))"

definition hasOwn :: "state \<Rightarrow> oid \<Rightarrow> key \<Rightarrow> bool" where
  "hasOwn s target k = (props s target k \<noteq> None)"


text \<open>
  The targets are ordinary objects and arrays, not proxies themselves, whose properties
  are own, writable data properties: \<open>target[key]\<close> and \<open>Reflect.get\<close> give the
  stored value or \<open>undefined\<close>. \<open>Reflect.set(target, key, value, receiver)\<close>
  defines the property on the receiver; a receiver that is a proxy of this library has no
  trap for that and passes the definition on to its target.

  An array keeps its \<open>length\<close> as a property. Storing at an array index at or past
  the length makes the length the index plus one. Storing a length converts the value
  twice, with \<open>ToUint32\<close> and with \<open>ToNumber\<close>, throws a \<open>RangeError\<close> when the
  two results differ, and removes the elements at and past a shorter length. The length
  of an array cannot be deleted: \<open>Reflect.deleteProperty\<close> returns false for it.
\<close>

definition getProp :: "state \<Rightarrow> oid \<Rightarrow> key \<Rightarrow> val" where
  "getProp s target k = (case props s target k of None \<Rightarrow> VUndefined | Some v \<Rightarrow> v)"

definition arrayIndex :: "key \<Rightarrow> nat option" where
  "arrayIndex k = (case k of KIdx i \<Rightarrow> if i < 4294967295 then Some i else None | _ \<Rightarrow> None)"

definition arrayLength :: "state \<Rightarrow> oid \<Rightarrow> nat" where
  "arrayLength s a = (case props s a (KStr ''length'') of Some (VNum n) \<Rightarrow> nat n | _ \<Rightarrow> 0)"

definition toNumber :: "env \<Rightarrow> val \<Rightarrow> state \<Rightarrow> val outcome" where
  "toNumber en v s =
     (case v of
        VUndefined \<Rightarrow> Done VNaN s
      | VNull \<Rightarrow> Done (VNum 0) s
      | VBool b \<Rightarrow> Done (VNum (if b then 1 else 0)) s
      | VNum n \<Rightarrow> Done v s
      | VNaN \<Rightarrow> Done VNaN s
      | _ \<Rightarrow> toNumberFn en v s)"

definition toUint32 :: "val \<Rightarrow> nat" where
  "toUint32 n = (case n of VNum i \<Rightarrow> nat (i mod 4294967296) | _ \<Rightarrow> 0)"

definition setLength :: "oid \<Rightarrow> nat \<Rightarrow> state \<Rightarrow> state" where
  "setLength a newLen s =
     (let kept =
            (if newLen < arrayLength s a
             then (\<lambda>k. case arrayIndex k of
                          Some i \<Rightarrow> if newLen \<le> i then None else props s a k
                        | None \<Rightarrow> props s a k)
             else props s a)
      in s\<lparr>props := (props s)(a := kept(KStr ''length'' \<mapsto> VNum (int newLen)))\<rparr>)"

definition arraySetLength :: "env \<Rightarrow> oid \<Rightarrow> val \<Rightarrow> state \<Rightarrow> bool outcome" where
  "arraySetLength en a v s =
     (case toNumber en v s of
        Done n1 s1 \<Rightarrow>
          (case toNumber en v s1 of
             Done n2 s2 \<Rightarrow>
               if n2 = VNum (int (toUint32 n1)) then Done True (setLength a (toUint32 n1) s2)
               else Threw s2
           | Threw s2 \<Rightarrow> Threw s2
           | Diverge \<Rightarrow> Diverge)
      | Threw s1 \<Rightarrow> Threw s1
      | Diverge \<Rightarrow> Diverge)"

definition defineOwnProperty :: "env \<Rightarrow> oid \<Rightarrow> key \<Rightarrow> val \<Rightarrow> state \<Rightarrow> bool outcome" where
  "defineOwnProperty en x k v s =
     (if isArray s x \<and> k = KStr ''length'' then arraySetLength en x v s
      else
        let ps = (props s x)(k \<mapsto> v);
            ps1 = (case arrayIndex k of
                     Some i \<Rightarrow>
                       if isArray s x \<and> arrayLength s x \<le> i
                       then ps(KStr ''length'' \<mapsto> VNum (int (Suc i))) else ps
                   | None \<Rightarrow> ps)
        in Done True (s\<lparr>props := (props s)(x := ps1)\<rparr>))"

definition reflectSet :: "env \<Rightarrow> oid \<Rightarrow> key \<Rightarrow> val \<Rightarrow> oid \<Rightarrow> state \<Rightarrow> bool outcome" where
  "reflectSet en target k v receiver s =
     defineOwnProperty en (case proxies s receiver of Some (t, hs) \<Rightarrow> t | None \<Rightarrow> receiver) k v s"

definition reflectDeleteProperty :: "oid \<Rightarrow> key \<Rightarrow> state \<Rightarrow> bool \<times> state" where
  "reflectDeleteProperty target k s =
     (if isArray s target \<and> k = KStr ''length'' then (False, s)
      else (True, s\<lparr>props := (props s)(target := (props s target)(k := None))\<rparr>))"

definition returning :: "'b \<Rightarrow> 'a outcome \<Rightarrow> 'b outcome" where
  "returning r out = (case out of Done v s \<Rightarrow> Done r s | Threw s \<Rightarrow> Threw s | Diverge \<Rightarrow> Diverge)"




definition createSetter ::
  "bool \<Rightarrow> bool \<Rightarrow> env \<Rightarrow> invoker \<Rightarrow> oid \<Rightarrow> key \<Rightarrow> val \<Rightarrow> oid \<Rightarrow> state \<Rightarrow> bool outcome" where
  "createSetter isReadonly0 shallow en call target k value0 receiver s =
     (if isReadonly0 \<and> LOCKED s then
        Done True (if DEV s then s\<lparr>console := console s @ [WarnSetReadonly k target]\<rparr> else s)
      else
        let oldValue0 = getProp s target k;
            value1 = (if \<not> shallow then toRaw s value0 else value0)
        in if \<not> shallow \<and> isRef s oldValue0 \<and> \<not> isRef s value1 then
             (case oldValue0 of
                VObj c \<Rightarrow> returning True (refSet en call c value1 s)
              | _ \<Rightarrow> Done True s)
           else
             let hadKey = hasOwn s target k
             in case reflectSet en target k value1 receiver s of
                  Done result s1 \<Rightarrow>
                    (let extraInfo =
                           (if DEV s1
                            then Some \<lparr>newValue = Some value1, oldValue = Some oldValue0\<rparr>
                            else None)
                     in if VObj target = toRaw s1 (VObj receiver) then
                          (if \<not> hadKey
                           then returning result (trigger en call target ADD k extraInfo s1)
                           else if hasChanged value1 oldValue0
                           then returning result (trigger en call target SET k extraInfo s1)
                           else Done result s1)
                        else Done result s1)
                | Threw s1 \<Rightarrow> Threw s1
                | Diverge \<Rightarrow> Diverge)"

definition deleteProperty :: "env \<Rightarrow> invoker \<Rightarrow> oid \<Rightarrow> key \<Rightarrow> state \<Rightarrow> bool outcome" where
  "deleteProperty en call target k s =
     (let hadKey = hasOwn s target k;
          oldValue0 = getProp s target k;
          (result, s1) = reflectDeleteProperty target k s
      in if result \<and> hadKey then
           returning result
             (trigger en call target DELETE k
                (if DEV s1 then Some \<lparr>newValue = None, oldValue = Some oldValue0\<rparr> else None) s1)
         else Done result s1)"

text \<open>The traps \<open>set\<close> and \<open>deleteProperty\<close> of \<open>mutableHandlers\<close> and \<open>readonlyHandlers\<close>.\<close>

definition mutableSet :: "env \<Rightarrow> invoker \<Rightarrow> oid \<Rightarrow> key \<Rightarrow> val \<Rightarrow> oid \<Rightarrow> state \<Rightarrow> bool outcome" where
  "mutableSet = createSetter False False"

definition readonlySet :: "env \<Rightarrow> invoker \<Rightarrow> oid \<Rightarrow> key \<Rightarrow> val \<Rightarrow> oid \<Rightarrow> state \<Rightarrow> bool outcome" where
  "readonlySet = createSetter True False"

definition shallowReadonlySet ::
  "env \<Rightarrow> invoker \<Rightarrow> oid \<Rightarrow> key \<Rightarrow> val \<Rightarrow> oid \<Rightarrow> state \<Rightarrow> bool outcome" where
  "shallowReadonlySet = createSetter True True"

definition readonlyDeleteProperty :: "env \<Rightarrow> invoker \<Rightarrow> oid \<Rightarrow> key \<Rightarrow> state \<Rightarrow> bool outcome" where
  "readonlyDeleteProperty en call target k s =
     (if LOCKED s then
        Done True (if DEV s then s\<lparr>console := console s @ [WarnDeleteReadonly k target]\<rparr> else s)
      else deleteProperty en call target k s)"

text \<open>
  The trap \<open>set\<close> and the trap \<open>deleteProperty\<close> of each of the five handler objects:
  \<open>shallowReadonlyHandlers\<close> takes \<open>deleteProperty\<close> from \<open>readonlyHandlers\<close>, and
  the two handler objects of \<open>collectionHandlers.ts\<close> have a trap \<open>get\<close> only.
\<close>

definition setTrap ::
  "handlers \<Rightarrow> (env \<Rightarrow> invoker \<Rightarrow> oid \<Rightarrow> key \<Rightarrow> val \<Rightarrow> oid \<Rightarrow> state \<Rightarrow> bool outcome) option" where
  "setTrap hs =
     (case hs of
        mutableHandlers \<Rightarrow> Some mutableSet
      | readonlyHandlers \<Rightarrow> Some readonlySet
      | shallowReadonlyHandlers \<Rightarrow> Some shallowReadonlySet
      | mutableCollectionHandlers \<Rightarrow> None
      | readonlyCollectionHandlers \<Rightarrow> None)"

definition deletePropertyTrap ::
  "handlers \<Rightarrow> (env \<Rightarrow> invoker \<Rightarrow> oid \<Rightarrow> key \<Rightarrow> state \<Rightarrow> bool outcome) option" where
  "deletePropertyTrap hs =
     (case hs of
        mutableHandlers \<Rightarrow> Some deleteProperty
      | readonlyHandlers \<Rightarrow> Some readonlyDeleteProperty
      | shallowReadonlyHandlers \<Rightarrow> Some readonlyDeleteProperty
      | mutableCollectionHandlers \<Rightarrow> None
      | readonlyCollectionHandlers \<Rightarrow> None)"

text \<open>
  What the language does with \<open>Reflect.set(view, key, value)\<close>, which is the
  assignment \<open>view[key] = value\<close>, and with \<open>Reflect.deleteProperty(view, key)\<close>,
  which is \<open>delete view[key]\<close>: a proxy calls the trap of its handler object with its
  target and with itself as the receiver; when the handler object has no such trap, the
  operation is done on the target.
\<close>

definition proxySet :: "env \<Rightarrow> invoker \<Rightarrow> oid \<Rightarrow> key \<Rightarrow> val \<Rightarrow> state \<Rightarrow> bool outcome" where
  "proxySet en call view k v s =
     (case proxies s view of
        None \<Rightarrow> reflectSet en view k v view s
      | Some (target, hs) \<Rightarrow>
          (case setTrap hs of
             Some trap \<Rightarrow> trap en call target k v view s
           | None \<Rightarrow> reflectSet en target k v view s))"

definition proxyDelete :: "env \<Rightarrow> invoker \<Rightarrow> oid \<Rightarrow> key \<Rightarrow> state \<Rightarrow> bool outcome" where
  "proxyDelete en call view k s =
     (case proxies s view of
        None \<Rightarrow> (let (result, s1) = reflectDeleteProperty view k s in Done result s1)
      | Some (target, hs) \<Rightarrow>
          (case deletePropertyTrap hs of
             Some trap \<Rightarrow> trap en call target k s
           | None \<Rightarrow> (let (result, s1) = reflectDeleteProperty target k s in Done result s1)))"

text \<open>
  What the read-only views satisfy in every state the module reaches: the view is a
  proxy of the object it is registered for, and its handler object is the one
  \<open>createReactiveObject\<close> chose from the constructor of that object.
\<close>

definition handlersOk :: "state \<Rightarrow> bool" where
  "handlersOk s =
     (\<forall>view target. readonlyToRaw s view = Some target \<longrightarrow>
        (\<exists>hs. proxies s view = Some (target, hs) \<and>
              (if constructor (attrsOf s target) \<in> collectionTypes
               then hs = readonlyCollectionHandlers
               else hs = readonlyHandlers \<or> hs = shallowReadonlyHandlers)))"

section \<open>Effect bodies that read\<close>









section \<open>scheduler.ts\<close>

text \<open>
  Jobs and callbacks are functions of user code, named by their index in a table that is
  a parameter of the flush. A job may enqueue jobs and callbacks; it returns or throws.
  \<open>pendingFlushes\<close> counts the calls \<open>nextTick(flushJobs)\<close>, \<open>handledErrors\<close>
  records the jobs whose error was handed to the error handler, and \<open>counter\<close> is a
  variable of user code. The build flag \<open>__DEV__\<close> is the parameter \<open>dev\<close>.
\<close>

type_synonym jid = nat
type_synonym CountMap = "jid \<Rightarrow> nat option"

record scheduler =
  queue :: "jid list"
  postFlushCbs :: "jid list"
  isFlushing :: bool
  isFlushPending :: bool
  pendingFlushes :: nat
  handledErrors :: "jid list"
  counter :: nat

datatype jobResult = Returned scheduler | Failed scheduler

datatype schedulerError = MaximumRecursiveUpdates

datatype 'a flush = Finished 'a | Fatal 'a | Raised 'a | Unfinished

type_synonym pass = "CountMap \<times> jid list \<times> scheduler"

definition RECURSION_LIMIT :: nat where
  "RECURSION_LIMIT = 100"

definition queueFlush :: "scheduler \<Rightarrow> scheduler" where
  "queueFlush s =
     (if \<not> isFlushing s \<and> \<not> isFlushPending s
      then s\<lparr>isFlushPending := True, pendingFlushes := Suc (pendingFlushes s)\<rparr>
      else s)"

definition queueJob :: "jid \<Rightarrow> scheduler \<Rightarrow> scheduler" where
  "queueJob job s =
     (if job \<notin> set (queue s) then queueFlush (s\<lparr>queue := queue s @ [job]\<rparr>) else s)"

datatype cbArg = One jid | Many "jid list"

definition queuePostFlushCb :: "cbArg \<Rightarrow> scheduler \<Rightarrow> scheduler" where
  "queuePostFlushCb cb s =
     queueFlush
       (case cb of
          One f \<Rightarrow> s\<lparr>postFlushCbs := postFlushCbs s @ [f]\<rparr>
        | Many fs \<Rightarrow> s\<lparr>postFlushCbs := postFlushCbs s @ fs\<rparr>)"

text \<open>\<open>[...new Set(cbs)]\<close>: the first occurrence of each callback, in order.\<close>

definition dedupe :: "jid list \<Rightarrow> jid list" where
  "dedupe cbs = fold setAdd cbs []"

definition checkRecursiveUpdates :: "CountMap \<Rightarrow> jid \<Rightarrow> schedulerError + CountMap" where
  "checkRecursiveUpdates seen fn =
     (case seen fn of
        None \<Rightarrow> Inr (seen(fn \<mapsto> 1))
      | Some count \<Rightarrow>
          if count > RECURSION_LIMIT then Inl MaximumRecursiveUpdates
          else Inr (seen(fn \<mapsto> count + 1)))"

text \<open>
  Modelled from the spec: \<open>callWithErrorHandling\<close> of \<open>errorHandling.ts\<close>, which is
  not among the sources. The flush "invokes each [job] under error-handling context":
  an error of the job is handed to the error handler and does not leave the call.
\<close>

definition callWithErrorHandling :: "(jid \<Rightarrow> scheduler \<Rightarrow> jobResult) \<Rightarrow> jid \<Rightarrow> scheduler \<Rightarrow> scheduler" where
  "callWithErrorHandling jobs job s =
     (case jobs job s of
        Returned s1 \<Rightarrow> s1
      | Failed s1 \<Rightarrow> s1\<lparr>handledErrors := handledErrors s1 @ [job]\<rparr>)"

text \<open>
  The loops of \<open>flushPostFlushCbs\<close> and \<open>flushJobs\<close>. Besides the map \<open>seen\<close> they
  carry the list of the functions called so far in the pass. The \<open>while\<close> loop and the
  recursion of \<open>flushJobs\<close> need not end, so both take fuel. A callback is called
  outside any handler: its error leaves the flush.
\<close>

fun runCbs ::
  "bool \<Rightarrow> (jid \<Rightarrow> scheduler \<Rightarrow> jobResult) \<Rightarrow> jid list \<Rightarrow> CountMap \<Rightarrow> jid list \<Rightarrow> scheduler
     \<Rightarrow> pass flush" where
  "runCbs dev jobs [] seen called s = Finished (seen, called, s)"
| "runCbs dev jobs (cb # cbs) seen called s =
     (case (if dev then checkRecursiveUpdates seen cb else Inr seen) of
        Inl err \<Rightarrow> Fatal (seen, called, s)
      | Inr seen1 \<Rightarrow>
          (case jobs cb s of
             Returned s1 \<Rightarrow> runCbs dev jobs cbs seen1 (called @ [cb]) s1
           | Failed s1 \<Rightarrow> Raised (seen1, called @ [cb], s1)))"

definition flushPostFlushCbs ::
  "bool \<Rightarrow> (jid \<Rightarrow> scheduler \<Rightarrow> jobResult) \<Rightarrow> CountMap \<Rightarrow> jid list \<Rightarrow> scheduler \<Rightarrow> pass flush" where
  "flushPostFlushCbs dev jobs seen called s =
     (if postFlushCbs s \<noteq> []
      then runCbs dev jobs (dedupe (postFlushCbs s)) seen called (s\<lparr>postFlushCbs := []\<rparr>)
      else Finished (seen, called, s))"

fun drainQueue ::
  "bool \<Rightarrow> (jid \<Rightarrow> scheduler \<Rightarrow> jobResult) \<Rightarrow> nat \<Rightarrow> CountMap \<Rightarrow> jid list \<Rightarrow> scheduler
     \<Rightarrow> pass flush" where
  "drainQueue dev jobs 0 seen called s = Unfinished"
| "drainQueue dev jobs (Suc n) seen called s =
     (case queue s of
        [] \<Rightarrow> Finished (seen, called, s)
      | job # rest \<Rightarrow>
          (case (if dev then checkRecursiveUpdates seen job else Inr seen) of
             Inl err \<Rightarrow> Fatal (seen, called, s\<lparr>queue := rest\<rparr>)
           | Inr seen1 \<Rightarrow>
               drainQueue dev jobs n seen1 (called @ [job])
                 (callWithErrorHandling jobs job (s\<lparr>queue := rest\<rparr>))))"

fun flushJobs ::
  "bool \<Rightarrow> (jid \<Rightarrow> scheduler \<Rightarrow> jobResult) \<Rightarrow> nat \<Rightarrow> CountMap \<Rightarrow> jid list \<Rightarrow> scheduler
     \<Rightarrow> pass flush" where
  "flushJobs dev jobs 0 seen called s = Unfinished"
| "flushJobs dev jobs (Suc n) seen called s =
     (case drainQueue dev jobs n seen called (s\<lparr>isFlushPending := False, isFlushing := True\<rparr>) of
        Finished (seen1, called1, s1) \<Rightarrow>
          (case flushPostFlushCbs dev jobs seen1 called1 s1 of
             Finished (seen2, called2, s2) \<Rightarrow>
               (let s3 = s2\<lparr>isFlushing := False\<rparr>
                in if queue s3 \<noteq> [] \<or> postFlushCbs s3 \<noteq> []
                   then flushJobs dev jobs n seen2 called2 s3
                   else Finished (seen2, called2, s3))
           | other \<Rightarrow> other)
      | other \<Rightarrow> other)"

text \<open>In a development build the map \<open>seen\<close> counts the calls made in the pass.\<close>

definition passInv :: "CountMap \<Rightarrow> jid list \<Rightarrow> bool" where
  "passInv seen called =
     (\<forall>j. seen j = (if j \<in> set called then Some (count_list called j) else None) \<and>
          count_list called j \<le> Suc RECURSION_LIMIT)"

definition runsOf :: "pass flush \<Rightarrow> jid \<Rightarrow> nat" where
  "runsOf r j =
     (case r of
        Finished (seen, called, s) \<Rightarrow> count_list called j
      | Fatal (seen, called, s) \<Rightarrow> count_list called j
      | Raised (seen, called, s) \<Rightarrow> count_list called j
      | Unfinished \<Rightarrow> 0)"

definition isFatal :: "pass flush \<Rightarrow> bool" where
  "isFatal r = (case r of Fatal p \<Rightarrow> True | _ \<Rightarrow> False)"

text \<open>
  Two tables of jobs: one whose jobs enqueue themselves again every time, one whose jobs
  do so until the counter of user code reaches 101.
\<close>

definition initScheduler :: scheduler where
  "initScheduler = \<lparr>queue = [], postFlushCbs = [], isFlushing = False, isFlushPending = False,
                     pendingFlushes = 0, handledErrors = [], counter = 0\<rparr>"

definition foreverJobs :: "jid \<Rightarrow> scheduler \<Rightarrow> jobResult" where
  "foreverJobs j s = Returned (queueJob j (s\<lparr>counter := Suc (counter s)\<rparr>))"

definition boundedJobs :: "jid \<Rightarrow> scheduler \<Rightarrow> jobResult" where
  "boundedJobs j s =
     (let s1 = s\<lparr>counter := Suc (counter s)\<rparr>
      in Returned (if counter s1 < 101 then queueJob j s1 else s1))"

text \<open>The state of a pass: what is counted is what has been run.\<close>

definition passOk :: "pass flush \<Rightarrow> bool" where
  "passOk r =
     (case r of
        Finished (seen, called, s) \<Rightarrow> passInv seen called
      | Fatal (seen, called, s) \<Rightarrow> passInv seen called \<and> (\<exists>j. count_list called j = Suc RECURSION_LIMIT)
      | Raised (seen, called, s) \<Rightarrow> passInv seen called
      | Unfinished \<Rightarrow> True)"

definition startScheduler :: scheduler where
  "startScheduler = queueJob 0 initScheduler"

definition flushingScheduler :: scheduler where
  "flushingScheduler = initScheduler\<lparr>isFlushing := True, pendingFlushes := 1, counter := 101\<rparr>"

definition idleScheduler :: scheduler where
  "idleScheduler = initScheduler\<lparr>pendingFlushes := 1, counter := 101\<rparr>"

section \<open>Example states\<close>

text \<open>The state of a freshly loaded module, in a development build.\<close>

definition initState :: state where
  "initState =
     \<lparr>targetMap = (\<lambda>x. None), effectStack = [], activeEffect = None, shouldTrack = True,
      effects = (\<lambda>x. \<lparr>active = False, raw = 0, deps = [], options = EMPTY_OBJ\<rparr>),
      nextEffect = 0,
      rawToReactive = (\<lambda>x. None), reactiveToRaw = (\<lambda>x. None),
      rawToReadonly = (\<lambda>x. None), readonlyToRaw = (\<lambda>x. None),
      readonlyValues = {}, nonReactiveValues = {},
      LOCKED = True, DEV = True,
      attrsOf = (\<lambda>x. \<lparr>toRawType = TObject, constructor = CObject, isVue = False,
                       isVNode = False, isRefFlag = False\<rparr>),
      props = (\<lambda>x k. None), cell = (\<lambda>x. VUndefined), proxies = (\<lambda>x. None),
      nextObject = 0, console = [], debugLog = [], userLog = []\<rparr>"

text \<open>A user function that appends 1 to the user's array.\<close>

definition pushOne :: "state \<Rightarrow> val outcome" where
  "pushOne s = Done VUndefined (s\<lparr>userLog := userLog s @ [VNum 1]\<rparr>)"

definition demoEnv :: env where
  "demoEnv = \<lparr>rawFn = (\<lambda>i call. pushOne),
              schedulerFn = (\<lambda>i call e s. Done VUndefined s),
              onStopFn = (\<lambda>i call stopper. pushOne),
              toNumberFn = (\<lambda>v s. Done VNaN s)\<rparr>"



text \<open>
  An \<open>onStop\<close> hook that appends 1 to the user's array and throws, and one that appends 1
  and, the first time it is called, stops effect 0 itself.
\<close>

definition throwingEnv :: env where
  "throwingEnv =
     demoEnv\<lparr>onStopFn := (\<lambda>i call stopper s. Threw (s\<lparr>userLog := userLog s @ [VNum 1]\<rparr>))\<rparr>"

definition reentrantEnv :: env where
  "reentrantEnv =
     demoEnv\<lparr>onStopFn := (\<lambda>i call stopper s.
                if userLog s = [] then stopper 0 (s\<lparr>userLog := userLog s @ [VNum 1]\<rparr>)
                else Done VUndefined (s\<lparr>userLog := userLog s @ [VNum 1]\<rparr>))\<rparr>"

text \<open>Effect 0 has been created and is running: it is on the stack.\<close>

definition stackedState :: state where
  "stackedState =
     (snd (createReactiveEffect 0 EMPTY_OBJ initState))\<lparr>effectStack := [0], activeEffect := Some 0\<rparr>"

text \<open>
  An effect that reads the property \<open>n\<close> of object 1 and then writes it:
  \<open>effect(() => { o.n = o.n + 1 })\<close>, as far as the dependency graph sees it.
\<close>

definition selfWriter :: "invoker \<Rightarrow> state \<Rightarrow> val outcome" where
  "selfWriter call s = trigger demoEnv call 1 SET (KStr ''n'') None (track 1 GET (KStr ''n'') s)"

definition writerEnv :: env where
  "writerEnv = demoEnv\<lparr>rawFn := (\<lambda>i. selfWriter)\<rparr>"



text \<open>Effect 0 with an \<open>onStop\<close> hook, before and after \<open>stop\<close>.\<close>

definition liveState :: state where
  "liveState = snd (createReactiveEffect 0 (EMPTY_OBJ\<lparr>onStop := Some 0\<rparr>) initState)"

definition stoppedState :: state where
  "stoppedState =
     liveState\<lparr>userLog := [VNum 1],
               effects := (effects liveState)
                 (0 := \<lparr>active = False, raw = 0, deps = [],
                        options = EMPTY_OBJ\<lparr>onStop := Some 0\<rparr>\<rparr>)\<rparr>"

text \<open>Sequencing of two statements of user code, and the user's array after a call.\<close>

definition andThen :: "'a outcome \<Rightarrow> (state \<Rightarrow> 'b outcome) \<Rightarrow> 'b outcome" where
  "andThen out f = (case out of Done v s \<Rightarrow> f s | Threw s \<Rightarrow> Threw s | Diverge \<Rightarrow> Diverge)"

definition logOf :: "'a outcome \<Rightarrow> val list option" where
  "logOf out = (case out of Done v s \<Rightarrow> Some (userLog s) | _ \<Rightarrow> None)"

text \<open>
  The scenario \<open>r = ref(0); effect(() => log.push(r.value)); r.value = v\<close>: the cell is
  object 0, the function of the effect is function 0.
\<close>

definition logRef :: "oid \<Rightarrow> state \<Rightarrow> val outcome" where
  "logRef r s = (let (v, s1) = refGet r s in Done VUndefined (s1\<lparr>userLog := userLog s1 @ [v]\<rparr>))"

definition refEnv :: env where
  "refEnv = \<lparr>rawFn = (\<lambda>i call. logRef 0),
             schedulerFn = (\<lambda>i call e s. Done VUndefined s),
             onStopFn = (\<lambda>i call stopper s. Done VUndefined s),
             toNumberFn = (\<lambda>v s. Done VNaN s)\<rparr>"

definition cellState :: state where
  "cellState = snd (ref (VNum 0) initState)"

definition refScenario :: "val \<Rightarrow> val outcome" where
  "refScenario v =
     andThen (effect refEnv (Suc (Suc 0)) (PlainFn 0) EMPTY_OBJ cellState)
       (refSet refEnv (invoke refEnv (Suc (Suc 0))) 0 v)"

text \<open>
  Object 0 is \<open>{a: 1}\<close> and object 1 is its read-only view, in a window in which the
  library has unlocked the read-only views. In another state, object 0 is an empty
  \<open>Map\<close> and object 1 is its read-only view, and the views are locked.
\<close>

definition roViewState :: state where
  "roViewState =
     (snd (readonly (VObj 0)
        (snd (newObject TObject CObject ((\<lambda>k. None)(KStr ''a'' \<mapsto> VNum 1)) initState))))
       \<lparr>LOCKED := False\<rparr>"

definition roMapState :: state where
  "roMapState = snd (readonly (VObj 0) (snd (newObject TMap CMap (\<lambda>k. None) initState)))"











section \<open>Properties of effect.ts\<close>

subsection \<open>The work sets of trigger\<close>

lemma setAdd_set [simp]: "set (setAdd x xs) = insert x (set xs)"
  by (auto simp: setAdd_def)

lemma setAdd_distinct [simp]: "distinct xs \<Longrightarrow> distinct (setAdd x xs)"
  by (auto simp: setAdd_def)

lemma addRunners_Some_sets:
  "set (fst (addRunners s acc (Some dep))) = set (fst acc) \<union> {e \<in> set dep. \<not> isComputed s e} \<and>
   set (snd (addRunners s acc (Some dep))) = set (snd acc) \<union> {e \<in> set dep. isComputed s e}"
  unfolding addRunners_def isComputed_def
  by (induction dep arbitrary: acc) (auto split: prod.splits)


lemma addRunners_None [simp]: "addRunners s acc None = acc"
  by (simp add: addRunners_def)

lemma addRunners_sets:
  "set (fst (addRunners s acc d)) = set (fst acc) \<union> {e \<in> members d. \<not> isComputed s e}"
  "set (snd (addRunners s acc d)) = set (snd acc) \<union> {e \<in> members d. isComputed s e}"
  by (cases d; simp add: members_def addRunners_Some_sets)+


lemma clear_fold_sets:
  "set (fst (fold (\<lambda>(k', dep) acc. addRunners s acc (Some dep)) m acc)) =
     set (fst acc) \<union> {e. \<exists>k' dep. (k', dep) \<in> set m \<and> e \<in> set dep \<and> \<not> isComputed s e} \<and>
   set (snd (fold (\<lambda>(k', dep) acc. addRunners s acc (Some dep)) m acc)) =
     set (snd acc) \<union> {e. \<exists>k' dep. (k', dep) \<in> set m \<and> e \<in> set dep \<and> isComputed s e}"
proof (induction m arbitrary: acc)
  case Nil
  then show ?case by simp
next
  case (Cons p m)
  obtain k' dep where p: "p = (k', dep)" by (cases p)
  show ?case
    unfolding p by (simp add: Cons.IH addRunners_Some_sets) blast
qed




lemma runners_key:
  assumes "k \<noteq> KUndefined \<or> type = CLEAR"
  shows "{e \<in> members (map_of m k). \<not> isComputed s e} \<subseteq> set (fst (runners s m target type k))"
    and "{e \<in> members (map_of m k). isComputed s e} \<subseteq> set (snd (runners s m target type k))"
  using assms
  by (auto simp: runners_def Let_def addRunners_sets clear_fold_sets members_def
      split: option.splits dest: map_of_SomeD)




lemmas example_defs =
  initState_def EMPTY_OBJ_def createReactiveEffect_def pushOne_def demoEnv_def

subsection \<open>What one call of trigger runs\<close>









subsection \<open>Computed effects first\<close>




subsection \<open>The iteration key\<close>




subsection \<open>Calling an effect that is running\<close>

text \<open>
  Claim C1, as amended. Calling an active effect that is already on the effect stack
  does nothing at all: the effect is not pushed, its deps are not cleaned, and its body
  is not run either; the call returns \<open>undefined\<close> and leaves the state as it was,
  with any fuel. Only an effect that has been stopped, and so is no longer active, has
  its body run without push and cleanup.
\<close>

theorem reentry_skips_body:
  assumes "e \<in> set (effectStack s)"
  shows "run e fn s = (if active (effects s e) then Done VUndefined s else fn s) \<and>
         invoke en (Suc n) e s =
           (if active (effects s e) then Done VUndefined s
            else rawFn en (raw (effects s e)) (invoke en n) s)"
  using assms by (simp add: run_def)

theorem reentry_skips_body_witness:
  "0 \<in> set (effectStack stackedState) \<and> active (effects stackedState 0) \<and>
   run 0 pushOne stackedState = Done VUndefined stackedState \<and>
   invoke demoEnv (Suc 0) 0 stackedState = Done VUndefined stackedState"
proof -
  have h: "0 \<in> set (effectStack stackedState)"
    by (simp add: stackedState_def example_defs)
  have a: "active (effects stackedState 0)"
    by (simp add: stackedState_def example_defs)
  from reentry_skips_body [OF h, of pushOne demoEnv 0] show ?thesis
    using h a by simp
qed

text \<open>
  The claim as it was stated fails: effect 0 is on the stack, and calling it again does
  not run its body, which would have appended to the user's array.
\<close>

theorem reentry_body_counterexample:
  "0 \<in> set (effectStack stackedState) \<and>
   run 0 pushOne stackedState = Done VUndefined stackedState \<and>
   userLog stackedState = [] \<and>
   pushOne stackedState = Done VUndefined (stackedState\<lparr>userLog := [VNum 1]\<rparr>) \<and>
   run 0 pushOne stackedState \<noteq> pushOne stackedState"
proof -
  have h: "0 \<in> set (effectStack stackedState)"
    and a: "active (effects stackedState 0)"
    and u: "userLog stackedState = []"
    by (simp_all add: stackedState_def example_defs)
  have r: "run 0 pushOne stackedState = Done VUndefined stackedState"
    using h a by (simp add: run_def)
  have p: "pushOne stackedState = Done VUndefined (stackedState\<lparr>userLog := [VNum 1]\<rparr>)"
    using u by (simp add: pushOne_def)
  have "userLog (stackedState\<lparr>userLog := [VNum 1]\<rparr>) \<noteq> userLog stackedState"
    using u by simp
  then have "stackedState\<lparr>userLog := [VNum 1]\<rparr> \<noteq> stackedState"
    by metis
  then show ?thesis using h r u p by simp
qed

text \<open>
  So an effect that writes what it reads returns: created in the initial state, it runs
  once, the trigger inside its body finds it on the stack, and the call ends with the
  effect subscribed to the property and the stack empty.
\<close>

lemma self_writer_returns:
  "\<exists>s'. effect writerEnv (Suc (Suc 0)) (PlainFn 0) EMPTY_OBJ initState = Done 0 s' \<and>
        deps (effects s' 0) = [(1, KStr ''n'')] \<and> depOf s' 1 (KStr ''n'') = [0] \<and>
        effectStack s' = [] \<and> activeEffect s' = None"
  by (simp add: effect_def createReactiveEffect_def run_def cleanup_def track_def trigger_def
      runners_def addRunners_def scheduleRun_def popEffect_def Let_def initState_def
      EMPTY_OBJ_def setAdd_def depOf_def selfWriter_def writerEnv_def demoEnv_def)

subsection \<open>Stopping an effect\<close>

text \<open>
  Claim C10, as amended. \<open>stop\<close> on an effect that is not active changes nothing and
  calls no hook, whatever the hooks are; and a \<open>stop\<close> that returns leaves the effect
  inactive, so that every later \<open>stop\<close> of it is such a call without effect. But the
  effect is made inactive only after the hook \<open>onStop\<close> has returned: the hook is called
  in the cleaned state, in which the effect is still active, and when it throws, \<open>stop\<close>
  throws in the state the hook has left. So a hook that throws, or that calls \<open>stop\<close> on
  the effect itself, can be called more than once.
\<close>

theorem stop_idempotent:
  "(\<not> active (effects s e) \<longrightarrow>
      stop en call stopper e s = Done VUndefined s \<and>
      stopEffect en (Suc n) call e s = Done VUndefined s) \<and>
   (stop en call stopper e s = Done v s' \<longrightarrow>
      \<not> active (effects s' e) \<and> stop en' call' stopper' e s' = Done VUndefined s') \<and>
   (active (effects s e) \<and> onStop (options (effects s e)) = Some h \<longrightarrow>
      active (effects (cleanup e s) e) \<and>
      stop en call stopper e s =
        (case onStopFn en h call stopper (cleanup e s) of
           Done v s2 \<Rightarrow>
             Done VUndefined (s2\<lparr>effects := (effects s2)(e := (effects s2 e)\<lparr>active := False\<rparr>)\<rparr>)
         | Threw s2 \<Rightarrow> Threw s2
         | Diverge \<Rightarrow> Diverge))"
  by (auto simp: stop_def Let_def cleanup_def split: if_splits option.splits outcome.splits)

lemma liveState_facts:
  "active (effects liveState 0)" "onStop (options (effects liveState 0)) = Some 0"
  "cleanup 0 liveState = liveState" "userLog liveState = []"
  "\<not> active (effects stoppedState 0)"
  by (simp_all add: liveState_def stoppedState_def cleanup_def example_defs)

theorem stop_idempotent_witness:
  "\<not> active (effects stoppedState 0) \<and>
   active (effects liveState 0) \<and> onStop (options (effects liveState 0)) = Some 0 \<and>
   stop demoEnv (invoke demoEnv 1) (stopEffect demoEnv 1 (invoke demoEnv 1)) 0 liveState =
     Done VUndefined stoppedState \<and>
   stop demoEnv (invoke demoEnv 1) (stopEffect demoEnv 1 (invoke demoEnv 1)) 0 stoppedState =
     Done VUndefined stoppedState \<and>
   stopEffect demoEnv 2 (invoke demoEnv 1) 0 stoppedState = Done VUndefined stoppedState \<and>
   userLog liveState = [] \<and> userLog stoppedState = [VNum 1]"
proof -
  let ?call = "invoke demoEnv 1"
  let ?stopper = "stopEffect demoEnv 1 ?call"
  note inst1 = stop_idempotent [of liveState 0 demoEnv ?call ?stopper 1 VUndefined stoppedState
      demoEnv ?call ?stopper 0]
  note inst2 = stop_idempotent [of stoppedState 0 demoEnv ?call ?stopper 1 VUndefined stoppedState
      demoEnv ?call ?stopper 0]
  have hook: "onStopFn demoEnv 0 ?call ?stopper liveState =
      Done VUndefined (liveState\<lparr>userLog := [VNum 1]\<rparr>)"
    by (simp add: demoEnv_def pushOne_def liveState_facts)
  have st: "liveState\<lparr>userLog := [VNum 1],
      effects := (effects liveState)(0 := (effects liveState 0)\<lparr>active := False\<rparr>)\<rparr> = stoppedState"
    by (simp add: liveState_def stoppedState_def example_defs)
  from inst1 liveState_facts(1,2)
  have "stop demoEnv ?call ?stopper 0 liveState =
        (case onStopFn demoEnv 0 ?call ?stopper (cleanup 0 liveState) of
           Done v s2 \<Rightarrow>
             Done VUndefined (s2\<lparr>effects := (effects s2)(0 := (effects s2 0)\<lparr>active := False\<rparr>)\<rparr>)
         | Threw s2 \<Rightarrow> Threw s2
         | Diverge \<Rightarrow> Diverge)"
    by blast
  then have l: "stop demoEnv ?call ?stopper 0 liveState = Done VUndefined stoppedState"
    by (simp add: liveState_facts(3) hook st del: One_nat_def)
  from inst2 liveState_facts(5)
  have r: "stop demoEnv ?call ?stopper 0 stoppedState = Done VUndefined stoppedState"
    and r2: "stopEffect demoEnv (Suc 1) ?call 0 stoppedState = Done VUndefined stoppedState"
    by blast+
  have two: "Suc 1 = 2" by simp
  have u: "userLog stoppedState = [VNum 1]"
    by (simp add: stoppedState_def)
  show ?thesis
    using liveState_facts(1,2,4,5) l r r2 u unfolding two by blast
qed

text \<open>
  The claim as it was stated fails. With a hook that throws, \<open>stop\<close> leaves effect 0
  active, and the next \<open>stop\<close> calls the hook again: the user's array has two
  entries. With a hook that stops effect 0 itself the first time it is called, one call
  of \<open>stop\<close> from user code calls the hook twice.
\<close>

theorem stop_hook_twice_counterexample:
  "active (effects liveState 0) \<and> userLog liveState = [] \<and>
   stopEffect throwingEnv 1 (invoke throwingEnv 1) 0 liveState =
     Threw (liveState\<lparr>userLog := [VNum 1]\<rparr>) \<and>
   active (effects (liveState\<lparr>userLog := [VNum 1]\<rparr>) 0) \<and>
   stopEffect throwingEnv 1 (invoke throwingEnv 1) 0 (liveState\<lparr>userLog := [VNum 1]\<rparr>) =
     Threw (liveState\<lparr>userLog := [VNum 1, VNum 1]\<rparr>) \<and>
   stopEffect reentrantEnv 2 (invoke reentrantEnv 1) 0 liveState =
     Done VUndefined (stoppedState\<lparr>userLog := [VNum 1, VNum 1]\<rparr>)"
  by (simp add: numeral_2_eq_2 stop_def cleanup_def throwingEnv_def reentrantEnv_def
      liveState_def stoppedState_def example_defs)

subsection \<open>Cleaning before a run\<close>

















section \<open>Properties of reactive.ts\<close>

lemma wf_reactive_inverse:
  "wfRegistry s \<Longrightarrow> rawToReactive s x = Some p \<Longrightarrow> reactiveToRaw s p = Some x"
  unfolding wfRegistry_def by blast

lemma wf_readonly_inverse:
  "wfRegistry s \<Longrightarrow> rawToReadonly s x = Some p \<Longrightarrow> readonlyToRaw s p = Some x"
  unfolding wfRegistry_def by blast

lemma wf_reactive_converse:
  "wfRegistry s \<Longrightarrow> reactiveToRaw s p = Some x \<Longrightarrow> rawToReactive s x = Some p"
  unfolding wfRegistry_def by blast

lemma wf_readonly_converse:
  "wfRegistry s \<Longrightarrow> readonlyToRaw s p = Some x \<Longrightarrow> rawToReadonly s x = Some p"
  unfolding wfRegistry_def by blast

lemma wf_reactive_iff:
  "wfRegistry s \<Longrightarrow> (rawToReactive s x = Some p) = (reactiveToRaw s p = Some x)"
  unfolding wfRegistry_def by blast

lemma wf_readonly_iff:
  "wfRegistry s \<Longrightarrow> (rawToReadonly s x = Some p) = (readonlyToRaw s p = Some x)"
  unfolding wfRegistry_def by blast

lemma wf_mutable_view:
  "wfRegistry s \<Longrightarrow> reactiveToRaw s p = Some x \<Longrightarrow>
   readonlyToRaw s p = None \<and> rawToReactive s p = None"
  unfolding wfRegistry_def by (metis option.distinct(1))

lemma wf_readonly_view:
  "wfRegistry s \<Longrightarrow> readonlyToRaw s p = Some x \<Longrightarrow>
   reactiveToRaw s p = None \<and> rawToReactive s p = None"
  unfolding wfRegistry_def by (metis option.distinct(1))

lemma wf_fresh:
  "wfRegistry s \<Longrightarrow> nextObject s \<le> x \<Longrightarrow>
   rawToReactive s x = None \<and> reactiveToRaw s x = None \<and>
   rawToReadonly s x = None \<and> readonlyToRaw s x = None \<and>
   x \<notin> readonlyValues s \<and> x \<notin> nonReactiveValues s"
  unfolding wfRegistry_def by blast

lemma createReactiveObject_obj:
  "createReactiveObject (VObj x) ro b c s =
     (case toProxyMap ro s x of
        Some p \<Rightarrow> (VObj p, s)
      | None \<Rightarrow>
          if toRawMap ro s x \<noteq> None \<or> \<not> canObserve s x then (VObj x, s)
          else (VObj (nextObject s),
                allocProxy ro (if constructor (attrsOf s x) \<in> collectionTypes then c else b) x s))"
  unfolding createReactiveObject_def allocProxy_def Let_def
  by (cases "toProxyMap ro s x"; cases "toRawMap ro s x"; simp)

lemma allocProxy_fields:
  "reactiveToRaw (allocProxy ro hs x s) =
     (if ro then reactiveToRaw s else (reactiveToRaw s)(nextObject s \<mapsto> x))"
  "readonlyToRaw (allocProxy ro hs x s) =
     (if ro then (readonlyToRaw s)(nextObject s \<mapsto> x) else readonlyToRaw s)"
  "rawToReactive (allocProxy ro hs x s) =
     (if ro then rawToReactive s else (rawToReactive s)(x \<mapsto> nextObject s))"
  "rawToReadonly (allocProxy ro hs x s) =
     (if ro then (rawToReadonly s)(x \<mapsto> nextObject s) else rawToReadonly s)"
  "readonlyValues (allocProxy ro hs x s) = readonlyValues s"
  "nonReactiveValues (allocProxy ro hs x s) = nonReactiveValues s"
  "nextObject (allocProxy ro hs x s) = Suc (nextObject s)"
  by (simp_all add: allocProxy_def register_def)

lemma reactive_obj:
  "reactive (VObj x) s =
     (if readonlyToRaw s x \<noteq> None then (VObj x, s)
      else if x \<in> readonlyValues s then readonly (VObj x) s
      else createReactiveObject (VObj x) False mutableHandlers mutableCollectionHandlers s)"
  by (simp add: reactive_def)




lemma wf_view_allocated:
  assumes wf: "wfRegistry s"
  shows "rawToReactive s y = Some q \<Longrightarrow> q < nextObject s"
    and "rawToReadonly s y = Some q \<Longrightarrow> q < nextObject s"
    and "reactiveToRaw s q = Some y \<Longrightarrow> q < nextObject s"
    and "readonlyToRaw s q = Some y \<Longrightarrow> q < nextObject s"
    and "rawToReactive s y = Some q \<Longrightarrow> y < nextObject s"
    and "rawToReadonly s y = Some q \<Longrightarrow> y < nextObject s"
proof -
  note fr = wf_fresh [OF wf]
  show "reactiveToRaw s q = Some y \<Longrightarrow> q < nextObject s"
    using fr [of q] by (cases "nextObject s \<le> q") simp_all
  show "readonlyToRaw s q = Some y \<Longrightarrow> q < nextObject s"
    using fr [of q] by (cases "nextObject s \<le> q") simp_all
  show "rawToReactive s y = Some q \<Longrightarrow> y < nextObject s"
    using fr [of y] by (cases "nextObject s \<le> y") simp_all
  show "rawToReadonly s y = Some q \<Longrightarrow> y < nextObject s"
    using fr [of y] by (cases "nextObject s \<le> y") simp_all
  show "rawToReactive s y = Some q \<Longrightarrow> q < nextObject s"
    using wf_reactive_inverse [OF wf, of y q] fr [of q] by (cases "nextObject s \<le> q") simp_all
  show "rawToReadonly s y = Some q \<Longrightarrow> q < nextObject s"
    using wf_readonly_inverse [OF wf, of y q] fr [of q] by (cases "nextObject s \<le> q") simp_all
qed

lemma wfRegistryI:
  assumes "\<And>y q. rawToReactive s y = Some q \<longleftrightarrow> reactiveToRaw s q = Some y"
    and "\<And>y q. rawToReadonly s y = Some q \<longleftrightarrow> readonlyToRaw s q = Some y"
    and "\<And>q. reactiveToRaw s q \<noteq> None \<Longrightarrow> readonlyToRaw s q = None \<and> rawToReactive s q = None"
    and "\<And>q. readonlyToRaw s q \<noteq> None \<Longrightarrow> rawToReactive s q = None"
    and "\<And>y. nextObject s \<le> y \<Longrightarrow>
           rawToReactive s y = None \<and> reactiveToRaw s y = None \<and>
           rawToReadonly s y = None \<and> readonlyToRaw s y = None \<and>
           y \<notin> readonlyValues s \<and> y \<notin> nonReactiveValues s"
  shows "wfRegistry s"
  unfolding wfRegistry_def using assms by blast

lemma wfRegistry_cong:
  assumes "rawToReactive t = rawToReactive s" "reactiveToRaw t = reactiveToRaw s"
    "rawToReadonly t = rawToReadonly s" "readonlyToRaw t = readonlyToRaw s"
    "readonlyValues t = readonlyValues s" "nonReactiveValues t = nonReactiveValues s"
    "nextObject t = nextObject s"
  shows "wfRegistry t = wfRegistry s"
  unfolding wfRegistry_def assms ..

lemma wf_allocProxy:
  assumes wf: "wfRegistry s" and alloc: "x < nextObject s"
    and noview: "toProxyMap ro s x = None" and raw: "toRawMap ro s x = None"
    and notro: "\<not> ro \<Longrightarrow> readonlyToRaw s x = None"
  shows "wfRegistry (allocProxy ro hs x s)"
proof -
  note fr = wf_fresh [OF wf]
  note al = wf_view_allocated [OF wf]
  note frp = wf_fresh [OF wf order_refl]
  show ?thesis
  proof (cases ro)
    case True
    then have ro: "ro = True" by simp
    have 1: "\<And>y q. rawToReactive s y = Some q \<longleftrightarrow> reactiveToRaw s q = Some y"
      by (rule wf_reactive_iff [OF wf])
    have nv: "rawToReadonly s x = None"
      using noview ro by (simp add: toProxyMap_def)
    have 2: "((rawToReadonly s)(x \<mapsto> nextObject s)) y = Some q \<longleftrightarrow>
                ((readonlyToRaw s)(nextObject s \<mapsto> x)) q = Some y" for y q
    proof (cases "y = x")
      case True
      then show ?thesis
        using nv wf_readonly_iff [OF wf, of x q] by (cases "q = nextObject s") auto
    next
      case False
      then show ?thesis
        using al(2) [of y q] wf_readonly_iff [OF wf, of y q]
        by (cases "q = nextObject s") auto
    qed
    have 3: "\<And>q. reactiveToRaw s q \<noteq> None \<Longrightarrow>
                ((readonlyToRaw s)(nextObject s \<mapsto> x)) q = None \<and> rawToReactive s q = None"
      using wf_mutable_view [OF wf] al(3) by (auto split: if_splits)
    have 4: "\<And>q. ((readonlyToRaw s)(nextObject s \<mapsto> x)) q \<noteq> None \<Longrightarrow> rawToReactive s q = None"
      using wf_readonly_view [OF wf] frp by (auto split: if_splits)
    have 5: "\<And>y. Suc (nextObject s) \<le> y \<Longrightarrow>
               rawToReactive s y = None \<and> reactiveToRaw s y = None \<and>
               ((rawToReadonly s)(x \<mapsto> nextObject s)) y = None \<and>
               ((readonlyToRaw s)(nextObject s \<mapsto> x)) y = None \<and>
               y \<notin> readonlyValues s \<and> y \<notin> nonReactiveValues s"
      using fr alloc by auto
    show ?thesis
    proof (rule wfRegistryI)
      fix y q
      show "rawToReactive (allocProxy ro hs x s) y = Some q \<longleftrightarrow>
            reactiveToRaw (allocProxy ro hs x s) q = Some y"
        unfolding allocProxy_fields ro if_True by (rule 1)
      show "rawToReadonly (allocProxy ro hs x s) y = Some q \<longleftrightarrow>
            readonlyToRaw (allocProxy ro hs x s) q = Some y"
        unfolding allocProxy_fields ro if_True by (rule 2)
      show "reactiveToRaw (allocProxy ro hs x s) q \<noteq> None \<Longrightarrow>
            readonlyToRaw (allocProxy ro hs x s) q = None \<and> rawToReactive (allocProxy ro hs x s) q = None"
        unfolding allocProxy_fields ro if_True by (rule 3)
      show "readonlyToRaw (allocProxy ro hs x s) q \<noteq> None \<Longrightarrow>
            rawToReactive (allocProxy ro hs x s) q = None"
        unfolding allocProxy_fields ro if_True by (rule 4)
      show "nextObject (allocProxy ro hs x s) \<le> y \<Longrightarrow>
           rawToReactive (allocProxy ro hs x s) y = None \<and> reactiveToRaw (allocProxy ro hs x s) y = None \<and>
           rawToReadonly (allocProxy ro hs x s) y = None \<and> readonlyToRaw (allocProxy ro hs x s) y = None \<and>
           y \<notin> readonlyValues (allocProxy ro hs x s) \<and> y \<notin> nonReactiveValues (allocProxy ro hs x s)"
        unfolding allocProxy_fields ro if_True by (rule 5)
    qed
  next
    case False
    then have ro: "ro = False" by simp
    have nv: "rawToReactive s x = None"
      using noview ro by (simp add: toProxyMap_def)
    have 1: "((rawToReactive s)(x \<mapsto> nextObject s)) y = Some q \<longleftrightarrow>
                ((reactiveToRaw s)(nextObject s \<mapsto> x)) q = Some y" for y q
    proof (cases "y = x")
      case True
      then show ?thesis
        using nv wf_reactive_iff [OF wf, of x q] by (cases "q = nextObject s") auto
    next
      case False
      then show ?thesis
        using al(1) [of y q] wf_reactive_iff [OF wf, of y q]
        by (cases "q = nextObject s") auto
    qed
    have 2: "\<And>y q. rawToReadonly s y = Some q \<longleftrightarrow> readonlyToRaw s q = Some y"
      by (rule wf_readonly_iff [OF wf])
    have 3: "\<And>q. ((reactiveToRaw s)(nextObject s \<mapsto> x)) q \<noteq> None \<Longrightarrow>
                readonlyToRaw s q = None \<and> ((rawToReactive s)(x \<mapsto> nextObject s)) q = None"
      using wf_mutable_view [OF wf] frp raw False alloc
      by (auto simp: toRawMap_def split: if_splits)
    have 4: "\<And>q. readonlyToRaw s q \<noteq> None \<Longrightarrow> ((rawToReactive s)(x \<mapsto> nextObject s)) q = None"
      using wf_readonly_view [OF wf] notro [OF False] by (auto split: if_splits)
    have 5: "\<And>y. Suc (nextObject s) \<le> y \<Longrightarrow>
               ((rawToReactive s)(x \<mapsto> nextObject s)) y = None \<and>
               ((reactiveToRaw s)(nextObject s \<mapsto> x)) y = None \<and>
               rawToReadonly s y = None \<and> readonlyToRaw s y = None \<and>
               y \<notin> readonlyValues s \<and> y \<notin> nonReactiveValues s"
      using fr alloc by auto
    show ?thesis
    proof (rule wfRegistryI)
      fix y q
      show "rawToReactive (allocProxy ro hs x s) y = Some q \<longleftrightarrow>
            reactiveToRaw (allocProxy ro hs x s) q = Some y"
        unfolding allocProxy_fields ro if_False by (rule 1)
      show "rawToReadonly (allocProxy ro hs x s) y = Some q \<longleftrightarrow>
            readonlyToRaw (allocProxy ro hs x s) q = Some y"
        unfolding allocProxy_fields ro if_False by (rule 2)
      show "reactiveToRaw (allocProxy ro hs x s) q \<noteq> None \<Longrightarrow>
            readonlyToRaw (allocProxy ro hs x s) q = None \<and> rawToReactive (allocProxy ro hs x s) q = None"
        unfolding allocProxy_fields ro if_False by (rule 3)
      show "readonlyToRaw (allocProxy ro hs x s) q \<noteq> None \<Longrightarrow>
            rawToReactive (allocProxy ro hs x s) q = None"
        unfolding allocProxy_fields ro if_False by (rule 4)
      show "nextObject (allocProxy ro hs x s) \<le> y \<Longrightarrow>
           rawToReactive (allocProxy ro hs x s) y = None \<and> reactiveToRaw (allocProxy ro hs x s) y = None \<and>
           rawToReadonly (allocProxy ro hs x s) y = None \<and> readonlyToRaw (allocProxy ro hs x s) y = None \<and>
           y \<notin> readonlyValues (allocProxy ro hs x s) \<and> y \<notin> nonReactiveValues (allocProxy ro hs x s)"
        unfolding allocProxy_fields ro if_False by (rule 5)
    qed
  qed
qed

lemma wf_createReactiveObject:
  assumes wf: "wfRegistry s" and alloc: "\<And>x. target = VObj x \<Longrightarrow> x < nextObject s"
    and notro: "\<And>x. target = VObj x \<Longrightarrow> \<not> ro \<Longrightarrow> readonlyToRaw s x = None"
  shows "wfRegistry (snd (createReactiveObject target ro b c s))"
proof (cases "\<exists>x. target = VObj x")
  case True
  then obtain x where x: "target = VObj x" by blast
  show ?thesis
  proof (cases "toProxyMap ro s x = None \<and> toRawMap ro s x = None \<and> canObserve s x")
    case True
    then show ?thesis
      using wf_allocProxy [OF wf alloc [OF x], of ro] notro [OF x]
      by (simp add: x createReactiveObject_obj)
  next
    case False
    then have "snd (createReactiveObject target ro b c s) = s"
      by (auto simp: x createReactiveObject_obj split: option.splits)
    then show ?thesis using wf by simp
  qed
next
  case False
  then have "snd (createReactiveObject target ro b c s) =
     (if DEV s then s\<lparr>console := console s @ [WarnNotReactive target]\<rparr> else s)"
    by (cases target) (simp_all add: createReactiveObject_def)
  moreover have "wfRegistry (s\<lparr>console := console s @ [WarnNotReactive target]\<rparr>) = wfRegistry s"
    by (rule wfRegistry_cong) simp_all
  ultimately show ?thesis using wf by simp
qed

lemma wf_initState: "wfRegistry initState"
  by (simp add: wfRegistry_def initState_def)


lemma wf_readonly:
  assumes wf: "wfRegistry s" and alloc: "\<And>x. target = VObj x \<Longrightarrow> x < nextObject s"
  shows "wfRegistry (snd (readonly target s))"
proof (cases "\<exists>x r. target = VObj x \<and> reactiveToRaw s x = Some r")
  case True
  then obtain x r where x: "target = VObj x" and r: "reactiveToRaw s x = Some r" by blast
  have "r < nextObject s"
    using wf_view_allocated(5) [OF wf wf_reactive_converse [OF wf r]] .
  then show ?thesis
    using wf_createReactiveObject [OF wf, of "VObj r" True] by (simp add: readonly_def x r)
next
  case False
  then have "readonly target s =
     createReactiveObject target True readonlyHandlers readonlyCollectionHandlers s"
    by (cases target) (auto simp: readonly_def split: option.splits)
  then show ?thesis
    using wf_createReactiveObject [OF wf, of target True] alloc by simp
qed

lemma wf_shallowReadonly:
  assumes wf: "wfRegistry s" and alloc: "\<And>x. target = VObj x \<Longrightarrow> x < nextObject s"
  shows "wfRegistry (snd (shallowReadonly target s))"
  using wf_createReactiveObject [OF wf, of target True] alloc by (simp add: shallowReadonly_def)

lemma wfRegistry_mono:
  assumes wf: "wfRegistry s"
    and maps: "rawToReactive t = rawToReactive s" "reactiveToRaw t = reactiveToRaw s"
      "rawToReadonly t = rawToReadonly s" "readonlyToRaw t = readonlyToRaw s"
    and ro: "\<And>x. x \<in> readonlyValues t \<Longrightarrow> x \<in> readonlyValues s \<or> x < nextObject s"
    and nr: "\<And>x. x \<in> nonReactiveValues t \<Longrightarrow> x \<in> nonReactiveValues s \<or> x < nextObject s"
    and nx: "nextObject s \<le> nextObject t"
  shows "wfRegistry t"
proof (rule wfRegistryI)
  fix y q
  show "rawToReactive t y = Some q \<longleftrightarrow> reactiveToRaw t q = Some y"
    unfolding maps by (rule wf_reactive_iff [OF wf])
  show "rawToReadonly t y = Some q \<longleftrightarrow> readonlyToRaw t q = Some y"
    unfolding maps by (rule wf_readonly_iff [OF wf])
  show "reactiveToRaw t q \<noteq> None \<Longrightarrow> readonlyToRaw t q = None \<and> rawToReactive t q = None"
    unfolding maps using wf_mutable_view [OF wf, of q] by blast
  show "readonlyToRaw t q \<noteq> None \<Longrightarrow> rawToReactive t q = None"
    unfolding maps using wf_readonly_view [OF wf, of q] by blast
  show "rawToReactive t y = None \<and> reactiveToRaw t y = None \<and>
        rawToReadonly t y = None \<and> readonlyToRaw t y = None \<and>
        y \<notin> readonlyValues t \<and> y \<notin> nonReactiveValues t" if "nextObject t \<le> y"
  proof -
    from that nx have le: "nextObject s \<le> y" by simp
    from wf_fresh [OF wf le] ro [of y] nr [of y] le show ?thesis
      unfolding maps by auto
  qed
qed

lemma wf_newObject: "wfRegistry s \<Longrightarrow> wfRegistry (snd (newObject ty c ps s))"
  by (erule wfRegistry_mono) (simp_all add: newObject_def Let_def)


lemma wf_markNonReactive:
  "wfRegistry s \<Longrightarrow> x < nextObject s \<Longrightarrow> wfRegistry (markNonReactive x s)"
  by (erule wfRegistry_mono) (auto simp: markNonReactive_def)






section \<open>Properties of ref.ts\<close>

lemmas run_defs = effect_def createReactiveEffect_def run_def cleanup_def track_def refGet_def
  refSet_def convert_def isObject_def trigger_def runners_def addRunners_def scheduleRun_def
  popEffect_def Let_def ref_def isRef_def andThen_def logOf_def logRef_def refEnv_def
  cellState_def refScenario_def initState_def EMPTY_OBJ_def setAdd_def depDelete_def

text \<open>
  Claim C2. The code does not do what the claim says: the setter of a cell calls
  \<open>trigger\<close> without comparing the new value with the old one, so assigning the value
  the cell already holds runs the effect again. Assigning a different value runs it too.
\<close>

theorem ref_same_value_reruns:
  "ref (VNum 0) initState = (VObj 0, cellState) \<and>
   logOf (effect refEnv (Suc (Suc 0)) (PlainFn 0) EMPTY_OBJ cellState) = Some [VNum 0] \<and>
   \<not> hasChanged (VNum 0) (cell cellState 0) \<and>
   logOf (refScenario (VNum 0)) = Some [VNum 0, VNum 0] \<and>
   logOf (refScenario (VNum 1)) = Some [VNum 0, VNum 1]"
  by (simp add: run_defs hasChanged_def strictEq_def)

text \<open>
  In general: for a value that is not an object, the setter stores it and triggers, and
  the effects it hands to \<open>scheduleRun\<close> are those of the cell before the write,
  whether or not the value differs from the one the cell held.
\<close>

lemma refSet_unconditional:
  assumes "\<not> isObject v"
  shows "refSet en call r v s =
           trigger en call r SET (KStr ''value'')
             (if DEV s then Some \<lparr>newValue = Some v, oldValue = None\<rparr> else None)
             (s\<lparr>cell := (cell s)(r := v)\<rparr>)"
    and "triggerOrder (s\<lparr>cell := (cell s)(r := v)\<rparr>) r SET (KStr ''value'') =
           triggerOrder s r SET (KStr ''value'')"
  using assms
  by (simp_all add: refSet_def convert_def triggerOrder_def runners_def addRunners_def
      Let_def split: option.splits)

text \<open>
  Claim C9. \<open>ref\<close> applied to a cell returns that cell and changes nothing: no new
  cell is allocated.
\<close>

theorem ref_of_ref: "isRef s x \<Longrightarrow> ref x s = (x, s)"
  by (simp add: ref_def)

theorem ref_of_ref_witness:
  "isRef cellState (VObj 0) \<and> ref (VObj 0) cellState = (VObj 0, cellState)"
proof -
  have h: "isRef cellState (VObj 0)"
    by (simp add: cellState_def ref_def isRef_def convert_def isObject_def initState_def)
  from ref_of_ref [OF h] h show ?thesis by simp
qed


section \<open>Properties of baseHandlers.ts\<close>

subsection \<open>The handlers of the read-only views\<close>

lemma handlersOkD:
  "handlersOk s \<Longrightarrow> readonlyToRaw s view = Some target \<Longrightarrow>
   \<exists>hs. proxies s view = Some (target, hs) \<and>
        (if constructor (attrsOf s target) \<in> collectionTypes
         then hs = readonlyCollectionHandlers
         else hs = readonlyHandlers \<or> hs = shallowReadonlyHandlers)"
  unfolding handlersOk_def by blast

lemma handlersOkI:
  assumes "\<And>view target. readonlyToRaw s view = Some target \<Longrightarrow>
     \<exists>hs. proxies s view = Some (target, hs) \<and>
          (if constructor (attrsOf s target) \<in> collectionTypes
           then hs = readonlyCollectionHandlers
           else hs = readonlyHandlers \<or> hs = shallowReadonlyHandlers)"
  shows "handlersOk s"
  unfolding handlersOk_def using assms by blast

lemma handlersOk_cong:
  assumes "readonlyToRaw t = readonlyToRaw s" "proxies t = proxies s" "attrsOf t = attrsOf s"
  shows "handlersOk t = handlersOk s"
  unfolding handlersOk_def assms ..

lemma handlersOk_initState: "handlersOk initState"
  by (simp add: handlersOk_def initState_def)

lemma allocProxy_heap:
  "proxies (allocProxy ro hs x s) = (proxies s)(nextObject s \<mapsto> (x, hs))"
  "attrsOf (allocProxy ro hs x s) = (attrsOf s)(nextObject s := attrsOf s x)"
  by (simp_all add: allocProxy_def register_def)

lemma wf_readonly_target_allocated:
  assumes "wfRegistry s" and "readonlyToRaw s view = Some target"
  shows "view < nextObject s" and "target < nextObject s"
  using wf_view_allocated(4) [OF assms]
    wf_view_allocated(6) [OF assms(1) wf_readonly_converse [OF assms]]
  by simp_all

lemma handlersOk_allocProxy:
  assumes wf: "wfRegistry s" and ok: "handlersOk s" and alloc: "x < nextObject s"
    and hs: "ro \<Longrightarrow>
       (if constructor (attrsOf s x) \<in> collectionTypes
        then hs = readonlyCollectionHandlers
        else hs = readonlyHandlers \<or> hs = shallowReadonlyHandlers)"
  shows "handlersOk (allocProxy ro hs x s)"
proof (rule handlersOkI)
  fix view target
  assume v: "readonlyToRaw (allocProxy ro hs x s) view = Some target"
  have fresh: "readonlyToRaw s (nextObject s) = None"
    using wf_fresh [OF wf order_refl] by simp
  have ax: "attrsOf (allocProxy ro hs x s) x = attrsOf s x"
    using alloc by (simp add: allocProxy_heap)
  show "\<exists>hs'. proxies (allocProxy ro hs x s) view = Some (target, hs') \<and>
          (if constructor (attrsOf (allocProxy ro hs x s) target) \<in> collectionTypes
           then hs' = readonlyCollectionHandlers
           else hs' = readonlyHandlers \<or> hs' = shallowReadonlyHandlers)"
  proof (cases "view = nextObject s")
    case True
    with v fresh have ro: ro
      by (cases ro) (simp_all add: allocProxy_fields)
    with v True have t: "target = x"
      by (simp add: allocProxy_fields)
    have p: "proxies (allocProxy ro hs x s) view = Some (target, hs)"
      by (simp add: allocProxy_heap True t)
    from hs [OF ro] p show ?thesis
      unfolding t ax by blast
  next
    case False
    with v have old: "readonlyToRaw s view = Some target"
      by (cases ro) (simp_all add: allocProxy_fields)
    from wf_readonly_target_allocated [OF wf old]
    have lt: "view < nextObject s" "target < nextObject s" .
    have p: "proxies (allocProxy ro hs x s) view = proxies s view"
      using False by (simp add: allocProxy_heap)
    have a: "attrsOf (allocProxy ro hs x s) target = attrsOf s target"
      using lt(2) by (simp add: allocProxy_heap)
    from handlersOkD [OF ok old] show ?thesis
      unfolding p a .
  qed
qed

lemma handlersOk_createReactiveObject:
  assumes wf: "wfRegistry s" and ok: "handlersOk s"
    and alloc: "\<And>x. target = VObj x \<Longrightarrow> x < nextObject s"
    and hs: "ro \<Longrightarrow> (b = readonlyHandlers \<or> b = shallowReadonlyHandlers) \<and>
                    c = readonlyCollectionHandlers"
  shows "handlersOk (snd (createReactiveObject target ro b c s))"
proof (cases "\<exists>x. target = VObj x")
  case True
  then obtain x where x: "target = VObj x" by blast
  show ?thesis
  proof (cases "toProxyMap ro s x = None \<and> toRawMap ro s x = None \<and> canObserve s x")
    case True
    have "handlersOk (allocProxy ro
            (if constructor (attrsOf s x) \<in> collectionTypes then c else b) x s)"
      by (rule handlersOk_allocProxy [OF wf ok alloc [OF x]]) (use hs in auto)
    with True show ?thesis
      by (simp add: x createReactiveObject_obj)
  next
    case False
    then have "snd (createReactiveObject target ro b c s) = s"
      by (auto simp: x createReactiveObject_obj split: option.splits)
    then show ?thesis using ok by simp
  qed
next
  case False
  then have "snd (createReactiveObject target ro b c s) =
     (if DEV s then s\<lparr>console := console s @ [WarnNotReactive target]\<rparr> else s)"
    by (cases target) (simp_all add: createReactiveObject_def)
  moreover have "handlersOk (s\<lparr>console := console s @ [WarnNotReactive target]\<rparr>) = handlersOk s"
    by (rule handlersOk_cong) simp_all
  ultimately show ?thesis using ok by simp
qed

lemma handlersOk_readonly:
  assumes wf: "wfRegistry s" and ok: "handlersOk s"
    and alloc: "\<And>x. target = VObj x \<Longrightarrow> x < nextObject s"
  shows "handlersOk (snd (readonly target s))"
proof (cases "\<exists>x r. target = VObj x \<and> reactiveToRaw s x = Some r")
  case True
  then obtain x r where x: "target = VObj x" and r: "reactiveToRaw s x = Some r" by blast
  have "r < nextObject s"
    using wf_view_allocated(5) [OF wf wf_reactive_converse [OF wf r]] .
  then show ?thesis
    using handlersOk_createReactiveObject [OF wf ok, of "VObj r" True]
    by (simp add: readonly_def x r)
next
  case False
  then have "readonly target s =
     createReactiveObject target True readonlyHandlers readonlyCollectionHandlers s"
    by (cases target) (auto simp: readonly_def split: option.splits)
  then show ?thesis
    using handlersOk_createReactiveObject [OF wf ok, of target True] alloc by simp
qed

lemma handlersOk_shallowReadonly:
  assumes wf: "wfRegistry s" and ok: "handlersOk s"
    and alloc: "\<And>x. target = VObj x \<Longrightarrow> x < nextObject s"
  shows "handlersOk (snd (shallowReadonly target s))"
  using handlersOk_createReactiveObject [OF wf ok, of target True] alloc
  by (simp add: shallowReadonly_def)

lemma handlersOk_reactive:
  assumes wf: "wfRegistry s" and ok: "handlersOk s"
    and alloc: "\<And>x. target = VObj x \<Longrightarrow> x < nextObject s"
  shows "handlersOk (snd (reactive target s))"
proof (cases "\<exists>x. target = VObj x \<and> readonlyToRaw s x = None \<and> x \<in> readonlyValues s")
  case True
  then obtain x where x: "target = VObj x" "readonlyToRaw s x = None" "x \<in> readonlyValues s"
    by blast
  then have "reactive target s = readonly target s"
    by (simp add: reactive_obj)
  then show ?thesis
    using handlersOk_readonly [OF wf ok alloc] by simp
next
  case False
  then have "reactive target s = (target, s) \<or>
     reactive target s =
       createReactiveObject target False mutableHandlers mutableCollectionHandlers s"
    by (cases target) (auto simp: reactive_def)
  then show ?thesis
    using ok handlersOk_createReactiveObject [OF wf ok, of target False] alloc by auto
qed

lemma handlersOk_newObject:
  assumes wf: "wfRegistry s" and ok: "handlersOk s"
  shows "handlersOk (snd (newObject ty c ps s))"
proof (rule handlersOkI)
  fix view target
  assume "readonlyToRaw (snd (newObject ty c ps s)) view = Some target"
  then have old: "readonlyToRaw s view = Some target"
    by (simp add: newObject_def Let_def)
  from wf_readonly_target_allocated [OF wf old]
  have lt: "target < nextObject s" by simp
  have p: "proxies (snd (newObject ty c ps s)) view = proxies s view"
    by (simp add: newObject_def Let_def)
  have a: "attrsOf (snd (newObject ty c ps s)) target = attrsOf s target"
    using lt by (simp add: newObject_def Let_def)
  from handlersOkD [OF ok old]
  show "\<exists>hs. proxies (snd (newObject ty c ps s)) view = Some (target, hs) \<and>
          (if constructor (attrsOf (snd (newObject ty c ps s)) target) \<in> collectionTypes
           then hs = readonlyCollectionHandlers
           else hs = readonlyHandlers \<or> hs = shallowReadonlyHandlers)"
    unfolding p a .
qed

subsection \<open>Writing and deleting through a read-only view\<close>

lemma proxySet_trap:
  "proxies s view = Some (target, hs) \<Longrightarrow>
   proxySet en call view k v s =
     (if hs = mutableHandlers then mutableSet en call target k v view s
      else if hs = readonlyHandlers then readonlySet en call target k v view s
      else if hs = shallowReadonlyHandlers then shallowReadonlySet en call target k v view s
      else reflectSet en target k v view s)"
  by (cases hs) (simp_all add: proxySet_def setTrap_def)

lemma proxyDelete_trap:
  "proxies s view = Some (target, hs) \<Longrightarrow>
   proxyDelete en call view k s =
     (if hs = mutableHandlers then deleteProperty en call target k s
      else if hs = readonlyHandlers \<or> hs = shallowReadonlyHandlers
      then readonlyDeleteProperty en call target k s
      else (let (result, s1) = reflectDeleteProperty target k s in Done result s1))"
  by (cases hs) (simp_all add: proxyDelete_def deletePropertyTrap_def)

lemma reflectSet_view:
  "proxies s view = Some (target, hs) \<Longrightarrow> \<not> isArray s target \<Longrightarrow>
   reflectSet en target k w view s =
     Done True (s\<lparr>props := (props s)(target := (props s target)(k \<mapsto> w))\<rparr>)"
  by (simp add: reflectSet_def defineOwnProperty_def Let_def split: option.splits)

lemma trigger_untracked:
  "targetMap s target = None \<Longrightarrow> trigger en call target type k x s = Done VUndefined s"
  by (simp add: trigger_def)

lemma createSetter_untracked:
  assumes "proxies s view = Some (target, hs)" and "\<not> isArray s target"
    and "targetMap s target = None" and "\<not> isRef s (getProp s target k)"
  shows "createSetter False shallow en call target k v view s =
     Done True (s\<lparr>props := (props s)
       (target := (props s target)(k \<mapsto> (if shallow then v else toRaw s v)))\<rparr>)"
proof -
  let ?w = "if shallow then v else toRaw s v"
  let ?s1 = "s\<lparr>props := (props s)(target := (props s target)(k \<mapsto> ?w))\<rparr>"
  have r: "reflectSet en target k ?w view s = Done True ?s1"
    by (rule reflectSet_view [OF assms(1,2)])
  have t: "trigger en call target type k x ?s1 = Done VUndefined ?s1" for type x
    by (rule trigger_untracked) (simp add: assms(3))
  show ?thesis
  proof (cases shallow)
    case True
    with r t show ?thesis
      by (simp add: createSetter_def Let_def returning_def)
  next
    case False
    with assms(4) r t show ?thesis
      by (simp add: createSetter_def Let_def returning_def)
  qed
qed

lemma createSetter_locked:
  "LOCKED s \<Longrightarrow>
   createSetter True shallow en call target k v receiver s =
     Done True (if DEV s then s\<lparr>console := console s @ [WarnSetReadonly k target]\<rparr> else s)"
  by (simp add: createSetter_def)

lemma createSetter_unlocked:
  "\<not> LOCKED s \<Longrightarrow>
   createSetter True shallow en call target k v receiver s =
     createSetter False shallow en call target k v receiver s"
  by (simp add: createSetter_def)

lemma readonlyDeleteProperty_cases:
  "readonlyDeleteProperty en call target k s =
     (if LOCKED s
      then Done True (if DEV s then s\<lparr>console := console s @ [WarnDeleteReadonly k target]\<rparr> else s)
      else deleteProperty en call target k s)"
  by (simp add: readonlyDeleteProperty_def)

lemma deleteProperty_untracked:
  assumes "\<not> isArray s target" and "targetMap s target = None"
  shows "deleteProperty en call target k s =
     Done True (s\<lparr>props := (props s)(target := (props s target)(k := None))\<rparr>)"
  using assms
  by (simp add: deleteProperty_def reflectDeleteProperty_def trigger_def returning_def Let_def)

text \<open>
  Claim C3, as amended. A read-only view of an object that is not itself a view has the
  handler object that \<open>createReactiveObject\<close> chose: that of the containers when the
  constructor of the object is \<open>Set\<close>, \<open>Map\<close>, \<open>WeakMap\<close> or \<open>WeakSet\<close>, and one
  of the two read-only handler objects of \<open>baseHandlers.ts\<close> otherwise. With the
  latter, while the library has locked the views, a write or a delete through the view
  changes nothing but the console, where a development build prints a warning, and
  returns true; while the views are unlocked, the write is the one of the mutable trap
  (without unwrapping when the view is shallow) and the delete is the mutable delete,
  with the same target and receiver. The handler object of the containers has no trap
  for writing or deleting: in both modes the property is written to the object or
  deleted from it without warning or trigger. When the object is not an array, no
  effect has subscribed to it and the old value is not a cell, the outcome of a write or
  delete that is carried out is the object with the property stored or removed.
\<close>

theorem readonly_traps:
  assumes ok: "handlersOk s" and view: "readonlyToRaw s view = Some target"
    and raw: "proxies s target = None"
  shows "\<exists>hs. proxies s view = Some (target, hs) \<and>
     (if constructor (attrsOf s target) \<in> collectionTypes
      then hs = readonlyCollectionHandlers
      else hs = readonlyHandlers \<or> hs = shallowReadonlyHandlers) \<and>
     (hs \<noteq> readonlyCollectionHandlers \<and> LOCKED s \<longrightarrow>
        proxySet en call view k v s =
          Done True (if DEV s then s\<lparr>console := console s @ [WarnSetReadonly k target]\<rparr> else s) \<and>
        proxyDelete en call view k s =
          Done True (if DEV s then s\<lparr>console := console s @ [WarnDeleteReadonly k target]\<rparr> else s)) \<and>
     (hs \<noteq> readonlyCollectionHandlers \<and> \<not> LOCKED s \<longrightarrow>
        proxySet en call view k v s =
          createSetter False (hs = shallowReadonlyHandlers) en call target k v view s \<and>
        proxyDelete en call view k s = deleteProperty en call target k s) \<and>
     (hs = readonlyCollectionHandlers \<longrightarrow>
        proxySet en call view k v s = reflectSet en target k v view s \<and>
        proxyDelete en call view k s =
          (let (result, s1) = reflectDeleteProperty target k s in Done result s1)) \<and>
     ((hs = readonlyCollectionHandlers \<or> \<not> LOCKED s) \<and> \<not> isArray s target \<and>
      targetMap s target = None \<and> \<not> isRef s (getProp s target k) \<longrightarrow>
        proxySet en call view k v s =
          Done True (s\<lparr>props := (props s)
            (target := (props s target)(k \<mapsto> (if hs = readonlyHandlers then toRaw s v else v)))\<rparr>) \<and>
        proxyDelete en call view k s =
          Done True (s\<lparr>props := (props s)(target := (props s target)(k := None))\<rparr>))"
proof -
  from handlersOkD [OF ok view] obtain hs where p: "proxies s view = Some (target, hs)"
    and h: "if constructor (attrsOf s target) \<in> collectionTypes
            then hs = readonlyCollectionHandlers
            else hs = readonlyHandlers \<or> hs = shallowReadonlyHandlers"
    by blast
  from h have three: "hs = readonlyHandlers \<or> hs = shallowReadonlyHandlers \<or>
                      hs = readonlyCollectionHandlers"
    by (cases "constructor (attrsOf s target) \<in> collectionTypes"; simp; blast)
  note ps = proxySet_trap [OF p, of en call k v]
  note pd = proxyDelete_trap [OF p, of en call k]
  have set_ro: "proxySet en call view k v s =
      (if LOCKED s
       then Done True (if DEV s then s\<lparr>console := console s @ [WarnSetReadonly k target]\<rparr> else s)
       else createSetter False (hs = shallowReadonlyHandlers) en call target k v view s)"
    if "hs \<noteq> readonlyCollectionHandlers"
  proof (cases "hs = readonlyHandlers")
    case True
    show ?thesis
      unfolding ps True readonlySet_def
      by (simp add: createSetter_locked createSetter_unlocked)
  next
    case False
    with that three have sh: "hs = shallowReadonlyHandlers" by blast
    show ?thesis
      unfolding ps sh shallowReadonlySet_def
      by (simp add: createSetter_locked createSetter_unlocked)
  qed
  have del_ro: "proxyDelete en call view k s =
      (if LOCKED s
       then Done True (if DEV s then s\<lparr>console := console s @ [WarnDeleteReadonly k target]\<rparr> else s)
       else deleteProperty en call target k s)"
    if "hs \<noteq> readonlyCollectionHandlers"
  proof (cases "hs = readonlyHandlers")
    case True
    show ?thesis
      unfolding pd True by (simp add: readonlyDeleteProperty_cases)
  next
    case False
    with that three have sh: "hs = shallowReadonlyHandlers" by blast
    show ?thesis
      unfolding pd sh by (simp add: readonlyDeleteProperty_cases)
  qed
  have locked: "hs \<noteq> readonlyCollectionHandlers \<and> LOCKED s \<longrightarrow>
        proxySet en call view k v s =
          Done True (if DEV s then s\<lparr>console := console s @ [WarnSetReadonly k target]\<rparr> else s) \<and>
        proxyDelete en call view k s =
          Done True (if DEV s then s\<lparr>console := console s @ [WarnDeleteReadonly k target]\<rparr> else s)"
    using set_ro del_ro by simp
  have unlocked: "hs \<noteq> readonlyCollectionHandlers \<and> \<not> LOCKED s \<longrightarrow>
        proxySet en call view k v s =
          createSetter False (hs = shallowReadonlyHandlers) en call target k v view s \<and>
        proxyDelete en call view k s = deleteProperty en call target k s"
    using set_ro del_ro by simp
  have coll: "hs = readonlyCollectionHandlers \<longrightarrow>
        proxySet en call view k v s = reflectSet en target k v view s \<and>
        proxyDelete en call view k s =
          (let (result, s1) = reflectDeleteProperty target k s in Done result s1)"
    by (simp add: ps pd)
  have stored: "(hs = readonlyCollectionHandlers \<or> \<not> LOCKED s) \<and> \<not> isArray s target \<and>
      targetMap s target = None \<and> \<not> isRef s (getProp s target k) \<longrightarrow>
        proxySet en call view k v s =
          Done True (s\<lparr>props := (props s)
            (target := (props s target)(k \<mapsto> (if hs = readonlyHandlers then toRaw s v else v)))\<rparr>) \<and>
        proxyDelete en call view k s =
          Done True (s\<lparr>props := (props s)(target := (props s target)(k := None))\<rparr>)"
  proof (intro impI, elim conjE)
    assume c: "hs = readonlyCollectionHandlers \<or> \<not> LOCKED s" and na: "\<not> isArray s target"
      and tm: "targetMap s target = None" and nr: "\<not> isRef s (getProp s target k)"
    show "proxySet en call view k v s =
          Done True (s\<lparr>props := (props s)
            (target := (props s target)(k \<mapsto> (if hs = readonlyHandlers then toRaw s v else v)))\<rparr>) \<and>
        proxyDelete en call view k s =
          Done True (s\<lparr>props := (props s)(target := (props s target)(k := None))\<rparr>)"
    proof (cases "hs = readonlyCollectionHandlers")
      case True
      have "proxySet en call view k v s =
          Done True (s\<lparr>props := (props s)(target := (props s target)(k \<mapsto> v))\<rparr>)"
        unfolding ps True using reflectSet_view [OF p na, of en k v] by simp
      moreover have "proxyDelete en call view k s =
          Done True (s\<lparr>props := (props s)(target := (props s target)(k := None))\<rparr>)"
        unfolding pd True using na by (simp add: reflectDeleteProperty_def)
      ultimately show ?thesis using True by simp
    next
      case False
      with c have u: "\<not> LOCKED s" by blast
      from False three have sh: "(hs = shallowReadonlyHandlers) = (hs \<noteq> readonlyHandlers)"
        by auto
      have "proxySet en call view k v s =
          Done True (s\<lparr>props := (props s)
            (target := (props s target)(k \<mapsto> (if hs = readonlyHandlers then toRaw s v else v)))\<rparr>)"
        unfolding set_ro [OF False]
          createSetter_untracked [OF p na tm nr, of "hs = shallowReadonlyHandlers" en call v]
        using u by (simp add: sh)
      moreover have "proxyDelete en call view k s =
          Done True (s\<lparr>props := (props s)(target := (props s target)(k := None))\<rparr>)"
        unfolding del_ro [OF False] deleteProperty_untracked [OF na tm, of en call k]
        using u by simp
      ultimately show ?thesis by simp
    qed
  qed
  show ?thesis
    by (rule exI [of _ hs]) (intro conjI; fact p h locked unlocked coll stored)
qed

lemmas ro_defs = roViewState_def roMapState_def readonly_def createReactiveObject_def
  newObject_def initState_def toProxyMap_def toRawMap_def canObserve_def isObservableType_def
  collectionTypes_def register_def Let_def

lemma roViewState_facts:
  "\<not> LOCKED roViewState" "readonlyToRaw roViewState 1 = Some 0"
  "proxies roViewState 0 = None"
  "proxies roViewState 1 = Some (0, readonlyHandlers)"
  "props roViewState 0 (KStr ''a'') = Some (VNum 1)"
  "targetMap roViewState 0 = None" "\<not> isArray roViewState 0"
  "\<not> isRef roViewState (getProp roViewState 0 (KStr ''a''))"
  "DEV roViewState" "console roViewState = []"
  "toRaw roViewState (VNum 2) = VNum 2"
  by (simp_all add: ro_defs isArray_def isRef_def getProp_def toRaw_def)

lemma roMapState_facts:
  "LOCKED roMapState" "readonlyToRaw roMapState 1 = Some 0"
  "proxies roMapState 0 = None"
  "proxies roMapState 1 = Some (0, readonlyCollectionHandlers)"
  "props roMapState 0 (KStr ''x'') = None"
  "targetMap roMapState 0 = None" "\<not> isArray roMapState 0"
  "\<not> isRef roMapState (getProp roMapState 0 (KStr ''x''))"
  "console roMapState = []"
  by (simp_all add: ro_defs isArray_def isRef_def getProp_def)

lemma roStates_ok:
  "handlersOk roViewState" "handlersOk (roViewState\<lparr>LOCKED := True\<rparr>)" "handlersOk roMapState"
proof -
  have wf: "wfRegistry (snd (newObject ty c ps initState))" for ty c ps
    by (rule wf_newObject [OF wf_initState])
  have ok: "handlersOk (snd (newObject ty c ps initState))" for ty c ps
    by (rule handlersOk_newObject [OF wf_initState handlersOk_initState])
  have nx: "nextObject (snd (newObject ty c ps initState)) = 1" for ty c ps
    by (simp add: newObject_def initState_def)
  have v: "handlersOk (snd (readonly (VObj 0) (snd (newObject ty c ps initState))))" for ty c ps
    by (rule handlersOk_readonly [OF wf ok]) (simp add: nx)
  show "handlersOk roMapState"
    unfolding roMapState_def by (rule v)
  have "handlersOk (t\<lparr>LOCKED := b\<rparr>) = handlersOk t" for t b
    by (rule handlersOk_cong) simp_all
  with v show "handlersOk roViewState" "handlersOk (roViewState\<lparr>LOCKED := True\<rparr>)"
    by (simp_all add: roViewState_def)
qed

theorem readonly_traps_witness:
  "handlersOk roViewState \<and> readonlyToRaw roViewState 1 = Some 0 \<and>
   proxies roViewState 0 = None \<and> proxies roViewState 1 = Some (0, readonlyHandlers) \<and>
   \<not> LOCKED roViewState \<and>
   proxySet demoEnv (invoke demoEnv 1) 1 (KStr ''a'') (VNum 2) roViewState =
     Done True (roViewState\<lparr>props := (props roViewState)
       (0 := (props roViewState 0)(KStr ''a'' \<mapsto> VNum 2))\<rparr>) \<and>
   proxyDelete demoEnv (invoke demoEnv 1) 1 (KStr ''a'') roViewState =
     Done True (roViewState\<lparr>props := (props roViewState)
       (0 := (props roViewState 0)(KStr ''a'' := None))\<rparr>) \<and>
   LOCKED (roViewState\<lparr>LOCKED := True\<rparr>) \<and>
   proxySet demoEnv (invoke demoEnv 1) 1 (KStr ''a'') (VNum 2) (roViewState\<lparr>LOCKED := True\<rparr>) =
     Done True (roViewState\<lparr>LOCKED := True, console := [WarnSetReadonly (KStr ''a'') 0]\<rparr>) \<and>
   proxyDelete demoEnv (invoke demoEnv 1) 1 (KStr ''a'') (roViewState\<lparr>LOCKED := True\<rparr>) =
     Done True (roViewState\<lparr>LOCKED := True, console := [WarnDeleteReadonly (KStr ''a'') 0]\<rparr>) \<and>
   handlersOk roMapState \<and> readonlyToRaw roMapState 1 = Some 0 \<and>
   proxies roMapState 0 = None \<and> proxies roMapState 1 = Some (0, readonlyCollectionHandlers) \<and>
   LOCKED roMapState \<and>
   proxySet demoEnv (invoke demoEnv 1) 1 (KStr ''x'') (VNum 2) roMapState =
     Done True (roMapState\<lparr>props := (props roMapState)
       (0 := (props roMapState 0)(KStr ''x'' \<mapsto> VNum 2))\<rparr>)"
proof -
  let ?call = "invoke demoEnv 1"
  let ?locked = "roViewState\<lparr>LOCKED := True\<rparr>"
  note u = roViewState_facts
  note m = roMapState_facts
  have lf: "readonlyToRaw ?locked 1 = Some 0" "proxies ?locked 0 = None"
    "proxies ?locked 1 = Some (0, readonlyHandlers)" "LOCKED ?locked" "DEV ?locked"
    "console ?locked = []"
    using u by simp_all
  from readonly_traps [OF roStates_ok(1) u(2,3), of demoEnv ?call "KStr ''a''" "VNum 2"]
  obtain hs where hs: "proxies roViewState 1 = Some (0, hs)"
    and st: "(hs = readonlyCollectionHandlers \<or> \<not> LOCKED roViewState) \<and>
      \<not> isArray roViewState 0 \<and> targetMap roViewState 0 = None \<and>
      \<not> isRef roViewState (getProp roViewState 0 (KStr ''a'')) \<longrightarrow>
        proxySet demoEnv ?call 1 (KStr ''a'') (VNum 2) roViewState =
          Done True (roViewState\<lparr>props := (props roViewState)
            (0 := (props roViewState 0)
               (KStr ''a'' \<mapsto> (if hs = readonlyHandlers then toRaw roViewState (VNum 2) else VNum 2)))\<rparr>) \<and>
        proxyDelete demoEnv ?call 1 (KStr ''a'') roViewState =
          Done True (roViewState\<lparr>props := (props roViewState)
            (0 := (props roViewState 0)(KStr ''a'' := None))\<rparr>)"
    by blast
  from hs u(4) have h1: "hs = readonlyHandlers" by simp
  from st u(1,6,7,8) have
    "proxySet demoEnv ?call 1 (KStr ''a'') (VNum 2) roViewState =
          Done True (roViewState\<lparr>props := (props roViewState)
            (0 := (props roViewState 0)
               (KStr ''a'' \<mapsto> (if hs = readonlyHandlers then toRaw roViewState (VNum 2) else VNum 2)))\<rparr>)"
    and b: "proxyDelete demoEnv ?call 1 (KStr ''a'') roViewState =
          Done True (roViewState\<lparr>props := (props roViewState)
            (0 := (props roViewState 0)(KStr ''a'' := None))\<rparr>)"
    by blast+
  then have a: "proxySet demoEnv ?call 1 (KStr ''a'') (VNum 2) roViewState =
     Done True (roViewState\<lparr>props := (props roViewState)
       (0 := (props roViewState 0)(KStr ''a'' \<mapsto> VNum 2))\<rparr>)"
    unfolding h1 u(11) by simp
  from readonly_traps [OF roStates_ok(2) lf(1,2), of demoEnv ?call "KStr ''a''" "VNum 2"]
  obtain hs2 where hs2: "proxies ?locked 1 = Some (0, hs2)"
    and lk: "hs2 \<noteq> readonlyCollectionHandlers \<and> LOCKED ?locked \<longrightarrow>
        proxySet demoEnv ?call 1 (KStr ''a'') (VNum 2) ?locked =
          Done True (if DEV ?locked
            then ?locked\<lparr>console := console ?locked @ [WarnSetReadonly (KStr ''a'') 0]\<rparr>
            else ?locked) \<and>
        proxyDelete demoEnv ?call 1 (KStr ''a'') ?locked =
          Done True (if DEV ?locked
            then ?locked\<lparr>console := console ?locked @ [WarnDeleteReadonly (KStr ''a'') 0]\<rparr>
            else ?locked)"
    by blast
  from hs2 lf(3) have h2: "hs2 \<noteq> readonlyCollectionHandlers" by simp
  from lk h2 lf(4) have
    "proxySet demoEnv ?call 1 (KStr ''a'') (VNum 2) ?locked =
          Done True (if DEV ?locked
            then ?locked\<lparr>console := console ?locked @ [WarnSetReadonly (KStr ''a'') 0]\<rparr>
            else ?locked)"
    and "proxyDelete demoEnv ?call 1 (KStr ''a'') ?locked =
          Done True (if DEV ?locked
            then ?locked\<lparr>console := console ?locked @ [WarnDeleteReadonly (KStr ''a'') 0]\<rparr>
            else ?locked)"
    by blast+
  then have c: "proxySet demoEnv ?call 1 (KStr ''a'') (VNum 2) ?locked =
     Done True (roViewState\<lparr>LOCKED := True, console := [WarnSetReadonly (KStr ''a'') 0]\<rparr>)"
    and d: "proxyDelete demoEnv ?call 1 (KStr ''a'') ?locked =
     Done True (roViewState\<lparr>LOCKED := True, console := [WarnDeleteReadonly (KStr ''a'') 0]\<rparr>)"
    using u(9,10) by simp_all
  from readonly_traps [OF roStates_ok(3) m(2,3), of demoEnv ?call "KStr ''x''" "VNum 2"]
  obtain hs3 where hs3: "proxies roMapState 1 = Some (0, hs3)"
    and st3: "(hs3 = readonlyCollectionHandlers \<or> \<not> LOCKED roMapState) \<and>
      \<not> isArray roMapState 0 \<and> targetMap roMapState 0 = None \<and>
      \<not> isRef roMapState (getProp roMapState 0 (KStr ''x'')) \<longrightarrow>
        proxySet demoEnv ?call 1 (KStr ''x'') (VNum 2) roMapState =
          Done True (roMapState\<lparr>props := (props roMapState)
            (0 := (props roMapState 0)
               (KStr ''x'' \<mapsto> (if hs3 = readonlyHandlers then toRaw roMapState (VNum 2) else VNum 2)))\<rparr>) \<and>
        proxyDelete demoEnv ?call 1 (KStr ''x'') roMapState =
          Done True (roMapState\<lparr>props := (props roMapState)
            (0 := (props roMapState 0)(KStr ''x'' := None))\<rparr>)"
    by blast
  from hs3 m(4) have h3: "hs3 = readonlyCollectionHandlers" by simp
  from st3 h3 m(6,7,8) have
    "proxySet demoEnv ?call 1 (KStr ''x'') (VNum 2) roMapState =
          Done True (roMapState\<lparr>props := (props roMapState)
            (0 := (props roMapState 0)
               (KStr ''x'' \<mapsto> (if hs3 = readonlyHandlers then toRaw roMapState (VNum 2) else VNum 2)))\<rparr>)"
    by blast
  then have e: "proxySet demoEnv ?call 1 (KStr ''x'') (VNum 2) roMapState =
     Done True (roMapState\<lparr>props := (props roMapState)
       (0 := (props roMapState 0)(KStr ''x'' \<mapsto> VNum 2))\<rparr>)"
    unfolding h3 by simp
  show ?thesis
    by (intro conjI) (fact roStates_ok u(1,2,3,4) m(1,2,3,4) lf(4) a b c d e)+
qed

text \<open>
  The claim as it was stated fails twice. In unlocked mode the write through the
  read-only view 1 of the object 0 stores 2 in the property \<open>a\<close> of the object, and the
  delete removes it. And in locked mode the write through the read-only view 1 of the
  \<open>Map\<close> 0 stores the property \<open>x\<close> in the \<open>Map\<close>, and nothing is printed.
\<close>

theorem readonly_unlocked_counterexample:
  "\<not> LOCKED roViewState \<and> readonlyToRaw roViewState 1 = Some 0 \<and>
   proxies roViewState 1 = Some (0, readonlyHandlers) \<and>
   getProp roViewState 0 (KStr ''a'') = VNum 1 \<and>
   proxySet demoEnv (invoke demoEnv 1) 1 (KStr ''a'') (VNum 2) roViewState =
     Done True (roViewState\<lparr>props := (props roViewState)
       (0 := (props roViewState 0)(KStr ''a'' \<mapsto> VNum 2))\<rparr>) \<and>
   getProp (roViewState\<lparr>props := (props roViewState)
       (0 := (props roViewState 0)(KStr ''a'' \<mapsto> VNum 2))\<rparr>) 0 (KStr ''a'') = VNum 2 \<and>
   proxyDelete demoEnv (invoke demoEnv 1) 1 (KStr ''a'') roViewState =
     Done True (roViewState\<lparr>props := (props roViewState)
       (0 := (props roViewState 0)(KStr ''a'' := None))\<rparr>) \<and>
   getProp (roViewState\<lparr>props := (props roViewState)
       (0 := (props roViewState 0)(KStr ''a'' := None))\<rparr>) 0 (KStr ''a'') = VUndefined \<and>
   LOCKED roMapState \<and> readonlyToRaw roMapState 1 = Some 0 \<and>
   proxies roMapState 1 = Some (0, readonlyCollectionHandlers) \<and>
   getProp roMapState 0 (KStr ''x'') = VUndefined \<and>
   proxySet demoEnv (invoke demoEnv 1) 1 (KStr ''x'') (VNum 2) roMapState =
     Done True (roMapState\<lparr>props := (props roMapState)
       (0 := (props roMapState 0)(KStr ''x'' \<mapsto> VNum 2))\<rparr>) \<and>
   getProp (roMapState\<lparr>props := (props roMapState)
       (0 := (props roMapState 0)(KStr ''x'' \<mapsto> VNum 2))\<rparr>) 0 (KStr ''x'') = VNum 2 \<and>
   console (roMapState\<lparr>props := (props roMapState)
       (0 := (props roMapState 0)(KStr ''x'' \<mapsto> VNum 2))\<rparr>) = []"
proof -
  let ?call = "invoke demoEnv 1"
  note u = roViewState_facts
  note m = roMapState_facts
  have a: "proxySet demoEnv ?call 1 (KStr ''a'') (VNum 2) roViewState =
     Done True (roViewState\<lparr>props := (props roViewState)
       (0 := (props roViewState 0)(KStr ''a'' \<mapsto> VNum 2))\<rparr>)"
    unfolding proxySet_trap [OF u(4)] readonlySet_def
    using createSetter_untracked [OF u(4,7,6,8), of False demoEnv ?call "VNum 2"] u(1)
    by (simp add: createSetter_unlocked u(11))
  have b: "proxyDelete demoEnv ?call 1 (KStr ''a'') roViewState =
     Done True (roViewState\<lparr>props := (props roViewState)
       (0 := (props roViewState 0)(KStr ''a'' := None))\<rparr>)"
    unfolding proxyDelete_trap [OF u(4)]
    using deleteProperty_untracked [OF u(7,6), of demoEnv ?call "KStr ''a''"] u(1)
    by (simp add: readonlyDeleteProperty_cases)
  have c: "proxySet demoEnv ?call 1 (KStr ''x'') (VNum 2) roMapState =
     Done True (roMapState\<lparr>props := (props roMapState)
       (0 := (props roMapState 0)(KStr ''x'' \<mapsto> VNum 2))\<rparr>)"
    unfolding proxySet_trap [OF m(4)]
    using reflectSet_view [OF m(4,7), of demoEnv "KStr ''x''" "VNum 2"] by simp
  have g: "getProp roViewState 0 (KStr ''a'') = VNum 1"
    "getProp roMapState 0 (KStr ''x'') = VUndefined"
    by (simp_all add: getProp_def u(5) m(5))
  show ?thesis
    using u(1,2,4) m(1,2,4,9) a b c g by (simp add: getProp_def)
qed

section \<open>Properties of effect bodies that read\<close>

























section \<open>Properties of the scheduler\<close>

lemma check_throws_iff:
  "checkRecursiveUpdates seen fn = Inl MaximumRecursiveUpdates \<longleftrightarrow>
     (\<exists>c. seen fn = Some c \<and> 100 < c)"
  by (auto simp: checkRecursiveUpdates_def RECURSION_LIMIT_def split: option.splits)

lemma check_step:
  assumes "passInv seen called"
  shows "case checkRecursiveUpdates seen j of
           Inl err \<Rightarrow> count_list called j = Suc RECURSION_LIMIT
         | Inr seen1 \<Rightarrow> passInv seen1 (called @ [j])"
proof (cases "j \<in> set called")
  case False
  with assms have "seen j = None" by (simp add: passInv_def)
  with assms False show ?thesis
    by (auto simp: checkRecursiveUpdates_def passInv_def)
next
  case True
  with assms have sj: "seen j = Some (count_list called j)" and le: "count_list called j \<le> Suc RECURSION_LIMIT"
    by (simp_all add: passInv_def)
  show ?thesis
  proof (cases "count_list called j > RECURSION_LIMIT")
    case True
    with sj le show ?thesis by (simp add: checkRecursiveUpdates_def)
  next
    case False
    with sj assms show ?thesis
      by (auto simp: checkRecursiveUpdates_def passInv_def)
  qed
qed

lemma runCbs_pass:
  "passInv seen called \<Longrightarrow> passOk (runCbs True jobs cbs seen called s)"
proof (induction cbs arbitrary: seen called s)
  case Nil
  then show ?case by (simp add: passOk_def)
next
  case (Cons cb cbs)
  from check_step [OF Cons.prems, of cb] show ?case
    using Cons.prems Cons.IH
    by (auto simp: passOk_def split: sum.splits jobResult.splits)
qed

lemma drainQueue_pass:
  "passInv seen called \<Longrightarrow> passOk (drainQueue True jobs fuel seen called s)"
proof (induction fuel arbitrary: seen called s)
  case 0
  then show ?case by (simp add: passOk_def)
next
  case (Suc n)
  show ?case
  proof (cases "queue s")
    case Nil
    with Suc.prems show ?thesis by (simp add: passOk_def)
  next
    case (Cons job rest)
    from check_step [OF Suc.prems, of job] show ?thesis
      using Suc.prems Suc.IH
      by (auto simp: Cons passOk_def split: sum.splits)
  qed
qed

lemma flushJobs_pass:
  "passInv seen called \<Longrightarrow> passOk (flushJobs True jobs fuel seen called s)"
proof (induction fuel arbitrary: seen called s)
  case 0
  then show ?case by (simp add: passOk_def)
next
  case (Suc n)
  let ?d = "drainQueue True jobs n seen called (s\<lparr>isFlushPending := False, isFlushing := True\<rparr>)"
  have d: "passOk ?d" by (rule drainQueue_pass [OF Suc.prems])
  show ?case
  proof (cases ?d)
    case (Finished p)
    obtain seen1 called1 s1 where p: "p = (seen1, called1, s1)" by (cases p)
    from d Finished p have inv1: "passInv seen1 called1" by (simp add: passOk_def)
    let ?f = "flushPostFlushCbs True jobs seen1 called1 s1"
    have f: "passOk ?f"
      using inv1 runCbs_pass by (simp add: flushPostFlushCbs_def passOk_def)
    show ?thesis
    proof (cases ?f)
      case F2: (Finished p2)
      obtain seen2 called2 s2 where p2: "p2 = (seen2, called2, s2)" by (cases p2)
      from f F2 p2 have inv2: "passInv seen2 called2" by (simp add: passOk_def)
      show ?thesis
        using Finished p F2 p2 inv2 Suc.IH [OF inv2]
        by (simp add: Let_def passOk_def)
    qed (use f Finished p in \<open>simp_all\<close>)
  qed (use d in \<open>simp_all\<close>)
qed

lemma forever_step:
  "isFlushing s \<Longrightarrow>
   callWithErrorHandling foreverJobs j (s\<lparr>queue := []\<rparr>) =
     s\<lparr>queue := [j], counter := Suc (counter s)\<rparr>"
  by (simp add: callWithErrorHandling_def foreverJobs_def queueJob_def queueFlush_def)

lemma drain_forever:
  assumes "isFlushing s" and "queue s = [j]" and "seen j = Some c" and "c \<le> 101"
    and "102 - c \<le> fuel"
  shows "drainQueue True foreverJobs fuel seen called s =
           Fatal (seen(j \<mapsto> 101), called @ replicate (101 - c) j,
                  s\<lparr>queue := [], counter := counter s + (101 - c)\<rparr>)"
  using assms
proof (induction "101 - c" arbitrary: c fuel seen called s)
  case 0
  then have c: "c = 101" by simp
  from "0.prems" obtain m where m: "fuel = Suc m" by (cases fuel) simp_all
  have "seen(j \<mapsto> 101) = seen" using "0.prems"(3) c by (simp add: fun_upd_idem)
  then show ?case
    using "0.prems" c
    by (simp add: m checkRecursiveUpdates_def RECURSION_LIMIT_def)
next
  case (Suc n)
  then have c: "c \<le> 100" and n: "n = 101 - Suc c" by simp_all
  from Suc.prems obtain m where m: "fuel = Suc m" by (cases fuel) simp_all
  let ?s = "s\<lparr>queue := [j], counter := Suc (counter s)\<rparr>"
  have ih: "drainQueue True foreverJobs m (seen(j \<mapsto> Suc c)) (called @ [j]) ?s =
      Fatal ((seen(j \<mapsto> Suc c))(j \<mapsto> 101), (called @ [j]) @ replicate (101 - Suc c) j,
             ?s\<lparr>queue := [], counter := counter ?s + (101 - Suc c)\<rparr>)"
    using Suc.prems c m by (intro Suc.hyps(1) [OF n]) simp_all
  have rep: "replicate (101 - c) j = j # replicate (101 - Suc c) j"
    using c by (simp add: Suc_diff_le flip: replicate_Suc)
  have cnt: "Suc (counter s) + (101 - Suc c) = counter s + (101 - c)"
    using c by simp
  show ?case
    using Suc.prems c ih
    by (simp add: m checkRecursiveUpdates_def RECURSION_LIMIT_def forever_step rep cnt)
qed

lemma forever_fatal:
  assumes "103 \<le> fuel"
  shows "flushJobs True foreverJobs fuel Map.empty [] startScheduler =
           Fatal (Map.empty(0 \<mapsto> 101), replicate 101 0, flushingScheduler)"
proof -
  from assms obtain m where m: "fuel = Suc (Suc m)" and m': "101 \<le> m"
    by (cases fuel; simp; rename_tac k; case_tac k; simp)
  let ?s1 = "startScheduler\<lparr>isFlushPending := False, isFlushing := True\<rparr>"
  let ?s2 = "?s1\<lparr>queue := [0], counter := Suc (counter ?s1)\<rparr>"
  have q: "queue ?s1 = [0]" "isFlushing ?s1"
    by (simp_all add: startScheduler_def queueJob_def queueFlush_def initScheduler_def)
  have "drainQueue True foreverJobs m (Map.empty(0 \<mapsto> 1)) ([] @ [0]) ?s2 =
      Fatal ((Map.empty(0 \<mapsto> 1))(0 \<mapsto> 101), ([] @ [0]) @ replicate (101 - 1) 0,
             ?s2\<lparr>queue := [], counter := counter ?s2 + (101 - 1)\<rparr>)"
    using m' by (intro drain_forever) simp_all
  moreover have "?s2\<lparr>queue := [], counter := counter ?s2 + (101 - 1)\<rparr> = flushingScheduler"
    by (simp add: startScheduler_def queueJob_def queueFlush_def initScheduler_def
        flushingScheduler_def)
  moreover have "([] @ [0::nat]) @ replicate (101 - 1) 0 = replicate 101 0"
    by (simp flip: replicate_Suc)
  ultimately have "drainQueue True foreverJobs (Suc m) Map.empty [] ?s1 =
      Fatal (Map.empty(0 \<mapsto> 101), replicate 101 0, flushingScheduler)"
    using q by (simp add: checkRecursiveUpdates_def forever_step)
  then show ?thesis by (simp add: m)
qed

lemma bounded_step:
  "isFlushing s \<Longrightarrow>
   callWithErrorHandling boundedJobs j (s\<lparr>queue := []\<rparr>) =
     (if Suc (counter s) < 101 then s\<lparr>queue := [j], counter := Suc (counter s)\<rparr>
      else s\<lparr>queue := [], counter := Suc (counter s)\<rparr>)"
  by (simp add: callWithErrorHandling_def boundedJobs_def queueJob_def queueFlush_def Let_def)

lemma drain_bounded:
  assumes "isFlushing s" and "queue s = [j]" and "seen j = Some c" and "counter s = c"
    and "c \<le> 100" and "102 - c \<le> fuel"
  shows "drainQueue True boundedJobs fuel seen called s =
           Finished (seen(j \<mapsto> 101), called @ replicate (101 - c) j,
                     s\<lparr>queue := [], counter := 101\<rparr>)"
  using assms
proof (induction "100 - c" arbitrary: c fuel seen called s)
  case 0
  then have c: "c = 100" by simp
  from "0.prems" c obtain m where m: "fuel = Suc (Suc m)"
    by (cases fuel; simp; rename_tac k; case_tac k; simp)
  show ?case
    using "0.prems" c
    by (simp add: m checkRecursiveUpdates_def RECURSION_LIMIT_def bounded_step fun_eq_iff)
next
  case (Suc n)
  then have c: "c < 100" and n: "n = 100 - Suc c" by simp_all
  from Suc.prems obtain m where m: "fuel = Suc m" by (cases fuel) simp_all
  let ?s = "s\<lparr>queue := [j], counter := Suc (counter s)\<rparr>"
  have ih: "drainQueue True boundedJobs m (seen(j \<mapsto> Suc c)) (called @ [j]) ?s =
      Finished ((seen(j \<mapsto> Suc c))(j \<mapsto> 101), (called @ [j]) @ replicate (101 - Suc c) j,
                ?s\<lparr>queue := [], counter := 101\<rparr>)"
    using Suc.prems c m by (intro Suc.hyps(1) [OF n]) simp_all
  have rep: "replicate (101 - c) j = j # replicate (101 - Suc c) j"
    using c by (simp add: Suc_diff_le flip: replicate_Suc)
  show ?case
    using Suc.prems c ih
    by (simp add: m checkRecursiveUpdates_def RECURSION_LIMIT_def bounded_step rep)
qed

lemma bounded_finishes:
  assumes "103 \<le> fuel"
  shows "flushJobs True boundedJobs fuel Map.empty [] startScheduler =
           Finished (Map.empty(0 \<mapsto> 101), replicate 101 0, idleScheduler)"
proof -
  from assms obtain m where m: "fuel = Suc (Suc m)" and m': "101 \<le> m"
    by (cases fuel; simp; rename_tac k; case_tac k; simp)
  let ?s1 = "startScheduler\<lparr>isFlushPending := False, isFlushing := True\<rparr>"
  let ?s2 = "?s1\<lparr>queue := [0], counter := Suc (counter ?s1)\<rparr>"
  have q: "queue ?s1 = [0]" "isFlushing ?s1" "counter ?s1 = 0"
    by (simp_all add: startScheduler_def queueJob_def queueFlush_def initScheduler_def)
  have "drainQueue True boundedJobs m (Map.empty(0 \<mapsto> 1)) ([] @ [0]) ?s2 =
      Finished ((Map.empty(0 \<mapsto> 1))(0 \<mapsto> 101), ([] @ [0]) @ replicate (101 - 1) 0,
                ?s2\<lparr>queue := [], counter := 101\<rparr>)"
    using m' q by (intro drain_bounded) simp_all
  moreover have "?s2\<lparr>queue := [], counter := 101\<rparr> = idleScheduler\<lparr>isFlushing := True\<rparr>"
    by (simp add: startScheduler_def queueJob_def queueFlush_def initScheduler_def
        idleScheduler_def)
  moreover have "([] @ [0::nat]) @ replicate (101 - 1) 0 = replicate 101 0"
    by (simp flip: replicate_Suc)
  ultimately have "drainQueue True boundedJobs (Suc m) Map.empty [] ?s1 =
      Finished (Map.empty(0 \<mapsto> 101), replicate 101 0, idleScheduler\<lparr>isFlushing := True\<rparr>)"
    using q by (simp add: checkRecursiveUpdates_def bounded_step)
  then show ?thesis
    by (simp add: m flushPostFlushCbs_def idleScheduler_def initScheduler_def)
qed

lemma count_list_replicate: "count_list (replicate n x) x = n"
  by (induction n) simp_all

lemma passInv_empty: "passInv Map.empty []"
  by (simp add: passInv_def)

text \<open>A production build makes no check at all: its flush never throws that error.\<close>

lemma runCbs_production: "runCbs False jobs cbs seen called s \<noteq> Fatal p"
  by (induction cbs arbitrary: seen called s) (auto split: jobResult.splits)

lemma drainQueue_production: "drainQueue False jobs fuel seen called s \<noteq> Fatal p"
  by (induction fuel arbitrary: seen called s) (auto split: list.splits)

lemma flushJobs_production: "flushJobs False jobs fuel seen called s \<noteq> Fatal p"
proof (induction fuel arbitrary: seen called s)
  case 0
  then show ?case by simp
next
  case (Suc n)
  let ?d = "drainQueue False jobs n seen called (s\<lparr>isFlushPending := False, isFlushing := True\<rparr>)"
  show ?case
  proof (cases ?d)
    case (Finished q)
    obtain seen1 called1 s1 where q: "q = (seen1, called1, s1)" by (cases q)
    let ?f = "flushPostFlushCbs False jobs seen1 called1 s1"
    have f: "?f \<noteq> Fatal p" for p
      using runCbs_production by (simp add: flushPostFlushCbs_def)
    show ?thesis
    proof (cases ?f)
      case F2: (Finished q2)
      obtain seen2 called2 s2 where q2: "q2 = (seen2, called2, s2)" by (cases q2)
      show ?thesis
        using Finished q F2 q2 Suc.IH by (simp add: Let_def)
    next
      case (Fatal x)
      with f [of x] show ?thesis by blast
    qed (use Finished q in \<open>simp_all\<close>)
  next
    case (Fatal x)
    with drainQueue_production show ?thesis by blast
  qed simp_all
qed

lemma flushJobs_never_fatal: "\<not> isFatal (flushJobs False jobs fuel seen called s)"
proof (cases "flushJobs False jobs fuel seen called s")
  case (Fatal x)
  with flushJobs_production [of jobs fuel seen called s x] show ?thesis by simp
qed (simp_all add: isFatal_def)

text \<open>
  A development build: taking a function that has been counted more than 100 times ends
  the loop, and with it the flush, in the fatal error; taking any other function counts
  it, calls it and goes on.
\<close>

lemma drainQueue_fatal:
  assumes "seen job = Some count" and "100 < count" and "queue s = job # rest"
  shows "drainQueue True jobs (Suc n) seen called s = Fatal (seen, called, s\<lparr>queue := rest\<rparr>)"
  using assms by (simp add: checkRecursiveUpdates_def RECURSION_LIMIT_def)

lemma flushJobs_fatal:
  assumes "seen job = Some count" and "100 < count" and "queue s = job # rest"
  shows "flushJobs True jobs (Suc (Suc n)) seen called s =
           Fatal (seen, called, s\<lparr>isFlushPending := False, isFlushing := True, queue := rest\<rparr>)"
proof -
  let ?s = "s\<lparr>isFlushPending := False, isFlushing := True\<rparr>"
  have q: "queue ?s = job # rest" using assms(3) by simp
  show ?thesis
    unfolding flushJobs.simps drainQueue_fatal [of seen job count ?s rest, OF assms(1,2) q] by simp
qed

lemma runCbs_fatal:
  assumes "seen cb = Some count" and "100 < count"
  shows "runCbs True jobs (cb # cbs) seen called s = Fatal (seen, called, s)"
  using assms by (simp add: checkRecursiveUpdates_def RECURSION_LIMIT_def)

lemma drainQueue_counted_run:
  assumes "passInv seen called" and "count_list called job = 101" and "queue s = job # rest"
  shows "drainQueue True jobs (Suc n) seen called s = Fatal (seen, called, s\<lparr>queue := rest\<rparr>)"
proof -
  from assms(2) have "job \<in> set called"
    by (metis count_list_0_iff zero_neq_numeral)
  with assms(1,2) have "seen job = Some 101" by (simp add: passInv_def)
  then show ?thesis using assms(3) drainQueue_fatal [of seen job 101 s rest] by simp
qed

lemma drainQueue_first_run:
  assumes "queue s = job # rest" and "seen job = None"
  shows "drainQueue True jobs (Suc n) seen called s =
           drainQueue True jobs n (seen(job \<mapsto> 1)) (called @ [job])
             (callWithErrorHandling jobs job (s\<lparr>queue := rest\<rparr>))"
  using assms by (simp add: checkRecursiveUpdates_def RECURSION_LIMIT_def)

lemma drainQueue_goes_on:
  assumes "queue s = job # rest" and "seen job = Some count" and "count \<le> 100"
  shows "drainQueue True jobs (Suc n) seen called s =
           drainQueue True jobs n (seen(job \<mapsto> count + 1)) (called @ [job])
             (callWithErrorHandling jobs job (s\<lparr>queue := rest\<rparr>))"
  using assms by (simp add: checkRecursiveUpdates_def RECURSION_LIMIT_def)

text \<open>
  Claim C8, as amended. In a development build, when a function that has been counted
  more than 100 times is taken from the queue, or is the next callback, the flush does
  not go on: it ends in the fatal error, and the function is not called. In one pass the
  count of a function is the number of times it has been run, so this happens when a
  function that has been run 101 times is taken again. A function counted at most 100
  times is counted, called, and the flush goes on; so in one flush pass no function is
  run more than 101 times, and the fatal error is thrown only when some function has
  been run 101 times. A production build never ends in that error.
\<close>

theorem recursion_limit:
  "(seen job = Some count \<and> 100 < count \<and> queue s = job # rest \<longrightarrow>
      drainQueue True jobs (Suc n) seen called s = Fatal (seen, called, s\<lparr>queue := rest\<rparr>) \<and>
      flushJobs True jobs (Suc (Suc n)) seen called s =
        Fatal (seen, called, s\<lparr>isFlushPending := False, isFlushing := True, queue := rest\<rparr>)) \<and>
   (seen job = Some count \<and> 100 < count \<longrightarrow>
      runCbs True jobs (job # cbs) seen called s = Fatal (seen, called, s)) \<and>
   (passInv seen called \<and> count_list called job = 101 \<and> queue s = job # rest \<longrightarrow>
      drainQueue True jobs (Suc n) seen called s = Fatal (seen, called, s\<lparr>queue := rest\<rparr>)) \<and>
   (seen job = None \<and> queue s = job # rest \<longrightarrow>
      drainQueue True jobs (Suc n) seen called s =
        drainQueue True jobs n (seen(job \<mapsto> 1)) (called @ [job])
          (callWithErrorHandling jobs job (s\<lparr>queue := rest\<rparr>))) \<and>
   (seen job = Some count \<and> count \<le> 100 \<and> queue s = job # rest \<longrightarrow>
      drainQueue True jobs (Suc n) seen called s =
        drainQueue True jobs n (seen(job \<mapsto> count + 1)) (called @ [job])
          (callWithErrorHandling jobs job (s\<lparr>queue := rest\<rparr>))) \<and>
   (checkRecursiveUpdates seen job = Inl MaximumRecursiveUpdates \<longleftrightarrow>
      (\<exists>c. seen job = Some c \<and> 100 < c)) \<and>
   runsOf (flushJobs True jobs fuel Map.empty [] s) j \<le> 101 \<and>
   (isFatal (flushJobs True jobs fuel Map.empty [] s) \<longrightarrow>
      (\<exists>f. runsOf (flushJobs True jobs fuel Map.empty [] s) f = 101)) \<and>
   \<not> isFatal (flushJobs False jobs fuel seen called s)"
proof -
  have g: "passOk (flushJobs True jobs fuel Map.empty [] s)"
    by (rule flushJobs_pass [OF passInv_empty])
  have 1: "runsOf (flushJobs True jobs fuel Map.empty [] s) j \<le> 101"
    using g by (auto simp: passOk_def runsOf_def passInv_def RECURSION_LIMIT_def split: flush.splits)
  have 2: "isFatal (flushJobs True jobs fuel Map.empty [] s) \<longrightarrow>
      (\<exists>f. runsOf (flushJobs True jobs fuel Map.empty [] s) f = 101)"
    using g by (auto simp: passOk_def runsOf_def isFatal_def RECURSION_LIMIT_def split: flush.splits)
  show ?thesis
    using drainQueue_fatal [of seen job count s rest jobs n called]
      flushJobs_fatal [of seen job count s rest jobs n called]
      runCbs_fatal [of seen job count jobs cbs called s]
      drainQueue_counted_run [of seen called job s rest jobs n]
      drainQueue_first_run [of s job rest seen jobs n called]
      drainQueue_goes_on [of s job rest seen count jobs n called]
      check_throws_iff [of seen job] 1 2
      flushJobs_never_fatal [of jobs fuel seen called s]
    by blast
qed

theorem recursion_limit_witness:
  "passInv (Map.empty(0 \<mapsto> 101)) (replicate 101 0) \<and>
   count_list (replicate 101 0) (0::nat) = 101 \<and> queue startScheduler = [0] \<and>
   drainQueue True foreverJobs (Suc 0) (Map.empty(0 \<mapsto> 101)) (replicate 101 0) startScheduler =
     Fatal (Map.empty(0 \<mapsto> 101), replicate 101 0, startScheduler\<lparr>queue := []\<rparr>) \<and>
   isFatal (flushJobs True foreverJobs 103 Map.empty [] startScheduler) \<and>
   runsOf (flushJobs True foreverJobs 103 Map.empty [] startScheduler) 0 = 101 \<and>
   (\<exists>f. runsOf (flushJobs True foreverJobs 103 Map.empty [] startScheduler) f = 101) \<and>
   \<not> isFatal (flushJobs False foreverJobs 103 Map.empty [] startScheduler)"
proof -
  have f: "flushJobs True foreverJobs 103 Map.empty [] startScheduler =
      Fatal (Map.empty(0 \<mapsto> 101), replicate 101 0, flushingScheduler)"
    by (rule forever_fatal) simp
  have i: "isFatal (flushJobs True foreverJobs 103 Map.empty [] startScheduler)"
    by (simp add: f isFatal_def)
  have r: "runsOf (flushJobs True foreverJobs 103 Map.empty [] startScheduler) 0 = 101"
    by (simp add: f runsOf_def count_list_replicate)
  have c: "count_list (replicate 101 0) (0::nat) = 101"
    by (rule count_list_replicate)
  have p: "passInv (Map.empty(0 \<mapsto> 101)) (replicate 101 0)"
    by (simp add: passInv_def count_list_replicate RECURSION_LIMIT_def count_list_0_iff)
  have q: "queue startScheduler = [0]"
    by (simp add: startScheduler_def queueJob_def queueFlush_def initScheduler_def)
  note inst = recursion_limit [of "Map.empty(0 \<mapsto> 101)" 0 101 startScheduler "[]" foreverJobs 0
      "replicate 101 0" "[]" 103 0]
  from inst p c q
  have d: "drainQueue True foreverJobs (Suc 0) (Map.empty(0 \<mapsto> 101)) (replicate 101 0) startScheduler =
     Fatal (Map.empty(0 \<mapsto> 101), replicate 101 0, startScheduler\<lparr>queue := []\<rparr>)"
    by blast
  note inst2 = recursion_limit [of Map.empty 0 0 startScheduler "[]" foreverJobs 0 "[]" "[]" 103 0]
  from inst2 i have e: "\<exists>f. runsOf (flushJobs True foreverJobs 103 Map.empty [] startScheduler) f = 101"
    by blast
  from inst2 have n: "\<not> isFatal (flushJobs False foreverJobs 103 Map.empty [] startScheduler)"
    by blast
  show ?thesis using p c q d i r e n by blast
qed

text \<open>
  The claim as it was stated fails: a job that is enqueued 101 times in one pass is run
  101 times, which is more than 100, and the flush ends without an error.
\<close>

theorem recursion_limit_counterexample:
  "flushJobs True boundedJobs 103 Map.empty [] startScheduler =
     Finished (Map.empty(0 \<mapsto> 101), replicate 101 0, idleScheduler) \<and>
   100 < runsOf (flushJobs True boundedJobs 103 Map.empty [] startScheduler) 0 \<and>
   \<not> isFatal (flushJobs True boundedJobs 103 Map.empty [] startScheduler) \<and>
   checkRecursiveUpdates (Map.empty(0 \<mapsto> 100)) 0 = Inr (Map.empty(0 \<mapsto> 101))"
proof -
  have f: "flushJobs True boundedJobs 103 Map.empty [] startScheduler =
      Finished (Map.empty(0 \<mapsto> 101), replicate 101 0, idleScheduler)"
    by (rule bounded_finishes) simp
  show ?thesis
    by (simp add: f runsOf_def isFatal_def checkRecursiveUpdates_def RECURSION_LIMIT_def
        count_list_replicate)
qed

end
